theory Spec2Isabelle
  imports Main
begin

section \<open>Command line of rmdir-cli: the argument parser\<close>

text \<open>
  The model follows the second (brutal-mode) version of the command line script. Strings
  are lists of 8-bit characters; every string the script compares against is ASCII.
\<close>

definition startsWith :: "string \<Rightarrow> string \<Rightarrow> bool" where
  "startsWith s p = (take (length p) s = p)"

text \<open>
  The options object of \<open>parseArgs\<close>. The source fields \<open>help\<close> and \<open>version\<close> are
  called \<open>help'\<close> and \<open>version'\<close> here.
\<close>

record options =
  force :: bool
  yes :: bool
  brutal :: bool
  help' :: bool
  version' :: bool
  directories :: "string list"

definition defaultOptions :: options where
  "defaultOptions =
     \<lparr>force = False, yes = False, brutal = False, help' = False, version' = False,
      directories = []\<rparr>"

text \<open>
  The loop of \<open>parseArgs\<close>. An unknown token that starts with a dash prints the usage
  and leaves the process with status 1 at once: the result \<open>Inl arg\<close>.
\<close>

fun parseLoop :: "string list \<Rightarrow> options \<Rightarrow> string + options" where
  "parseLoop [] opts = Inr opts"
| "parseLoop (arg # args) opts =
     (if arg = ''--help'' \<or> arg = ''-h'' then parseLoop args (opts\<lparr>help' := True\<rparr>)
      else if arg = ''--version'' \<or> arg = ''-v'' then parseLoop args (opts\<lparr>version' := True\<rparr>)
      else if arg = ''--force'' \<or> arg = ''-f'' then parseLoop args (opts\<lparr>force := True\<rparr>)
      else if arg = ''--brutal'' \<or> arg = ''-b'' then parseLoop args (opts\<lparr>brutal := True\<rparr>)
      else if arg = ''--yes'' \<or> arg = ''-y'' then parseLoop args (opts\<lparr>yes := True\<rparr>)
      else if startsWith arg ''-'' then Inl arg
      else parseLoop args (opts\<lparr>directories := directories opts @ [arg]\<rparr>))"

definition parseArgs :: "string list \<Rightarrow> string + options" where
  "parseArgs args = parseLoop args defaultOptions"


text \<open>The recognised flags, and the tokens that end the run with the usage text.\<close>

definition isFlag :: "string \<Rightarrow> bool" where
  "isFlag a = (a \<in> {''--help'', ''-h'', ''--version'', ''-v'', ''--force'', ''-f'',
                     ''--brutal'', ''-b'', ''--yes'', ''-y''})"

definition unknownOption :: "string \<Rightarrow> bool" where
  "unknownOption a = (\<not> isFlag a \<and> startsWith a ''-'')"

definition mentions :: "string list \<Rightarrow> string \<Rightarrow> string \<Rightarrow> bool" where
  "mentions args long short = (long \<in> set args \<or> short \<in> set args)"

section \<open>The environment: file system, external commands, standard input\<close>

text \<open>
  What \<open>fs.statSync\<close> and \<open>fs.readdirSync\<close> can find at a path. \<open>File n\<close> is any entry
  that is not a directory (\<open>stats.isDirectory()\<close> is false) of \<open>n\<close> bytes; \<open>Dir es\<close> is a
  directory whose listing succeeds and returns the entries \<open>es\<close> in order; \<open>Sealed\<close> is a
  directory whose listing throws; \<open>NoStat err\<close> is a path whose \<open>statSync\<close> throws (a
  missing path, a dangling link, a path behind a directory that may not be searched).
  The tree is finite: links that lead back into the tree are outside the model.
\<close>

datatype fserr = ENOENT | EACCES | EOTHER string

datatype node =
    File nat
  | Dir "(string \<times> node) list"
  | Sealed
  | NoStat fserr

text \<open>A process id as \<open>parseInt\<close> returns it: \<open>None\<close> is \<open>NaN\<close>.\<close>

record proc =
  pid :: "int option"
  name :: string

text \<open>
  The command lines handed to \<open>child_process.execSync\<close>, by the text the script builds:
  \<open>handle.exe "dir" 2>nul || echo "handle.exe not found"\<close>,
  \<open>tasklist /V /FO CSV | findstr /I "dir"\<close>, \<open>lsof +D "dir" 2>/dev/null || true\<close>,
  \<open>taskkill /PID pid /F\<close> and \<open>kill -9 pid\<close>.
\<close>

datatype command =
    HandleExe string
  | Tasklist string
  | Lsof string
  | Taskkill "int option"
  | Kill "int option"

text \<open>
  The environment of one run. The calls of \<open>execSync\<close> and of \<open>rmdir\<close> are numbered in the
  order in which the run makes them. \<open>execSync n c\<close> is what the call number \<open>n\<close> does when
  it runs the command line \<open>c\<close>: it throws an error with a message (\<open>Inl\<close>) or returns the
  standard output (\<open>Inr\<close>); \<open>shellResult\<close> below says which outcome of the tool leads to
  which of the two. \<open>endOfInput i\<close> holds when standard input ends before the question
  asked for target number \<open>i\<close> receives a line: \<open>readline\<close> then never calls the callback of
  the question. Otherwise \<open>answer i\<close> is the line that the question receives.

  Modelled from the spec: the recursive deleter \<open>rmdir\<close> (module \<open>../index\<close>, section 4.5:
  it deletes the directory and every descendant unconditionally, and a failure surfaces
  as an error carrying the underlying message). \<open>rmdirError n d\<close> is the message of the
  error that the call number \<open>n\<close> throws for the path \<open>d\<close>, if it throws, and
  \<open>rmdirEffect n d\<close> is what the call does to the file system as the paths show it. No
  assumption is made on the effect: a removal may change what other paths find (a
  target inside another target, two spellings of one path), and a call that throws may
  have removed a part.
\<close>

record env =
  win32 :: bool
  execSync :: "nat \<Rightarrow> command \<Rightarrow> string + string"
  rmdirError :: "nat \<Rightarrow> string \<Rightarrow> string option"
  rmdirEffect :: "nat \<Rightarrow> string \<Rightarrow> (string \<Rightarrow> node) \<Rightarrow> (string \<Rightarrow> node)"
  answer :: "nat \<Rightarrow> string"
  endOfInput :: "nat \<Rightarrow> bool"

text \<open>
  What the tool behind a command line does: it ends with status 0 after writing to
  standard output (\<open>Done\<close>); it is missing or ends with another status (\<open>Failed\<close>, with the
  text it has written to standard output, empty for a missing tool, and the message of
  the error that \<open>execSync\<close> throws for a command line that fails); or the call is cut off
  by the timeout of \<open>execSync\<close>, or fails before the command line has run (\<open>TimedOut\<close>, with
  the message of the error). \<open>shellResult\<close> is what \<open>execSync\<close> then does, by the operators
  of each command line: after \<open>||\<close> the command line of \<open>handle.exe\<close> echoes a marker and
  that of \<open>lsof\<close> runs \<open>true\<close>, so both end with status 0 and \<open>execSync\<close> returns what was
  written; the other command lines fail with their tool (for \<open>tasklist\<close>, with the
  \<open>findstr\<close> at the end of its pipe, which fails when no line matches).
\<close>

datatype toolrun = Done string | Failed string string | TimedOut string

definition notFoundLine :: string where
  "notFoundLine = [CHR 0x22] @ ''handle.exe not found'' @ [CHR 0x22, CHR 0x0D, CHR 0x0A]"

fun shellResult :: "command \<Rightarrow> toolrun \<Rightarrow> string + string" where
  "shellResult c (Done out) = Inr out"
| "shellResult c (TimedOut msg) = Inl msg"
| "shellResult (HandleExe d) (Failed out msg) = Inr (out @ notFoundLine)"
| "shellResult (Lsof d) (Failed out msg) = Inr out"
| "shellResult c (Failed out msg) = Inl msg"

text \<open>The lines the script writes, one constructor for each \<open>console\<close> statement.\<close>

datatype message =
    MUnknownOption string
  | MUsage
  | MVersion
  | MNotADirectory string
  | MNotExist string
  | MPermissionDenied string
  | MUnableToAccess string string
  | MReadError
  | MAboutToDelete string
  | MContains nat nat
  | MBrutalEnabled
  | MBlank
  | MCancelled
  | MNotEmpty string
  | MUseForceOrBrutal
  | MChecking
  | MFound nat
  | MPid "int option" string
  | MAttempting
  | MKilled nat
  | MCouldNotKillAll
  | MKilledSome nat
  | MFailedSome nat
  | MFailedPid "int option" string
  | MNoProcesses
  | MDeleting string
  | MDeleted string
  | MErrorDeleting string string
  | MNoDirectory
  | MAllDeleted
  | MSummary nat nat
  | MOperationFailed string

text \<open>
  What a run does, in order: lines on standard output and standard error, the calls of
  \<open>statSync\<close> and \<open>readdirSync\<close> on a target, the calls of \<open>rmdir\<close>, the external
  commands, and the questions put to the user (for a target number, in the brutal
  wording or not).
\<close>

datatype event =
    Out message
  | Err message
  | Stat string
  | Readdir string
  | Remove string
  | Exec command
  | Question nat bool

record world =
  fs :: "string \<Rightarrow> node"
  clock :: nat
  trace :: "event list"

definition emit :: "event \<Rightarrow> world \<Rightarrow> world" where
  "emit ev w = w\<lparr>trace := trace w @ [ev]\<rparr>"

definition emits :: "event list \<Rightarrow> world \<Rightarrow> world" where
  "emits evs w = w\<lparr>trace := trace w @ evs\<rparr>"

definition exec :: "env \<Rightarrow> command \<Rightarrow> world \<Rightarrow> (string + string) \<times> world" where
  "exec e c w = (execSync e (clock w) c, (emit (Exec c) w)\<lparr>clock := Suc (clock w)\<rparr>)"

definition rmdir :: "env \<Rightarrow> string \<Rightarrow> world \<Rightarrow> (string + unit) \<times> world" where
  "rmdir e d w =
     (let w1 = (emit (Remove d) w)\<lparr>fs := rmdirEffect e (clock w) d (fs w), clock := Suc (clock w)\<rparr>
      in case rmdirError e (clock w) d of
           Some msg \<Rightarrow> (Inl msg, w1)
         | None \<Rightarrow> (Inr (), w1))"

section \<open>Directory inspector\<close>

definition checkDirectory :: "string \<Rightarrow> world \<Rightarrow> bool \<times> world" where
  "checkDirectory d w =
     (let w1 = emit (Stat d) w in
      case fs w d of
        File n \<Rightarrow> (False, emit (Err (MNotADirectory d)) w1)
      | Dir es \<Rightarrow> (True, w1)
      | Sealed \<Rightarrow> (True, w1)
      | NoStat ENOENT \<Rightarrow> (False, emit (Err (MNotExist d)) w1)
      | NoStat EACCES \<Rightarrow> (False, emit (Err (MPermissionDenied d)) w1)
      | NoStat (EOTHER m) \<Rightarrow> (False, emit (Err (MUnableToAccess d m)) w1))"

definition isDirectoryEmpty :: "string \<Rightarrow> world \<Rightarrow> bool \<times> world" where
  "isDirectoryEmpty d w =
     (let w1 = emit (Readdir d) w in
      case fs w d of
        Dir es \<Rightarrow> (length es = 0, w1)
      | _ \<Rightarrow> (False, emit (Out MReadError) w1))"

text \<open>
  \<open>getDirectorySize\<close>: the two counters of the closure, and the number of error lines
  that the \<open>catch\<close> blocks of \<open>walkDir\<close> have written.
\<close>

record tally =
  totalSize :: nat
  totalFiles :: nat
  errorLines :: nat

text \<open>
  \<open>walkDir\<close> wraps its whole body in one \<open>try\<close>: a listing that throws, and a \<open>statSync\<close>
  that throws inside the \<open>forEach\<close>, both end the walk of the current directory there.
  \<open>walkEntries\<close> is the \<open>forEach\<close>; its second result is False when it was left by an
  exception.
\<close>

fun walkDir :: "node \<Rightarrow> tally \<Rightarrow> tally"
  and walkEntries :: "(string \<times> node) list \<Rightarrow> tally \<Rightarrow> tally \<times> bool" where
  "walkDir (Dir es) t =
     (case walkEntries es t of
        (t', True) \<Rightarrow> t'
      | (t', False) \<Rightarrow> t'\<lparr>errorLines := errorLines t' + 1\<rparr>)"
| "walkDir (File n) t = t\<lparr>errorLines := errorLines t + 1\<rparr>"
| "walkDir Sealed t = t\<lparr>errorLines := errorLines t + 1\<rparr>"
| "walkDir (NoStat err) t = t\<lparr>errorLines := errorLines t + 1\<rparr>"
| "walkEntries [] t = (t, True)"
| "walkEntries (fe # es) t =
     (case snd fe of
        NoStat err \<Rightarrow> (t, False)
      | File n \<Rightarrow> walkEntries es (t\<lparr>totalSize := totalSize t + n, totalFiles := totalFiles t + 1\<rparr>)
      | Dir sub \<Rightarrow> walkEntries es (walkDir (snd fe) t)
      | Sealed \<Rightarrow> walkEntries es (walkDir (snd fe) t))"

definition getDirectorySize :: "string \<Rightarrow> world \<Rightarrow> (nat \<times> nat) \<times> world" where
  "getDirectorySize d w =
     (let t = walkDir (fs w d) \<lparr>totalSize = 0, totalFiles = 0, errorLines = 0\<rparr>
      in ((totalSize t, totalFiles t), emits (replicate (errorLines t) (Out MReadError)) w))"


section \<open>Confirmation gate\<close>

text \<open>
  \<open>String.prototype.toLowerCase\<close> on 8-bit characters: the 26 capital letters of ASCII
  are mapped, every other character is kept.
\<close>

definition lowerChar :: "char \<Rightarrow> char" where
  "lowerChar c =
     (case map_of (zip ''ABCDEFGHIJKLMNOPQRSTUVWXYZ'' ''abcdefghijklmnopqrstuvwxyz'') c of
        Some l \<Rightarrow> l
      | None \<Rightarrow> c)"

definition toLowerCase :: "string \<Rightarrow> string" where
  "toLowerCase s = map lowerChar s"

text \<open>
  \<open>confirmDeletion\<close> returns a promise. With \<open>options.yes\<close> it is already resolved with
  true. Otherwise its executor runs at once (size report, the lines shown, the question)
  and the promise stays pending until the answer arrives.
\<close>

datatype confirmation = Resolved bool | Asked

definition confirmDeletion :: "nat \<Rightarrow> string \<Rightarrow> options \<Rightarrow> world \<Rightarrow> confirmation \<times> world" where
  "confirmDeletion i d opts w =
     (if yes opts then (Resolved True, w)
      else
        (case getDirectorySize d w of
           (sizeInfo, w1) \<Rightarrow>
             let w2 = emits [Out (MAboutToDelete d), Out (MContains (snd sizeInfo) (fst sizeInfo))] w1
             in if brutal opts
                then (Asked, emits [Out MBrutalEnabled, Out MBlank, Question i True] w2)
                else (Asked, emits [Out MBlank, Question i False] w2)))"

definition affirmative :: "string \<Rightarrow> bool" where
  "affirmative a = (toLowerCase a = ''y'' \<or> toLowerCase a = ''yes'')"

text \<open>The callback of \<open>rl.question\<close>, in both wordings: the value the promise resolves to.\<close>

definition answered :: "string \<Rightarrow> world \<Rightarrow> bool \<times> world" where
  "answered a w =
     (let confirmed = affirmative a
      in (confirmed, if \<not> confirmed then emit (Out MCancelled) w else w))"

text \<open>
  The value the promise of \<open>confirmDeletion\<close> settles to when the question for target
  \<open>i\<close> receives its line.
\<close>

definition confirm :: "env \<Rightarrow> nat \<Rightarrow> string \<Rightarrow> options \<Rightarrow> world \<Rightarrow> bool \<times> world" where
  "confirm e i d opts w =
     (case confirmDeletion i d opts w of
        (Resolved b, w1) \<Rightarrow> (b, w1)
      | (Asked, w1) \<Rightarrow> answered (answer e i) w1)"

section \<open>Process scanner and terminator\<close>

text \<open>The string functions of JavaScript that the scanner uses, on ASCII text.\<close>

definition isSpace :: "char \<Rightarrow> bool" where
  "isSpace c = (c \<in> {CHR 0x09, CHR 0x0A, CHR 0x0B, CHR 0x0C, CHR 0x0D, CHR 0x20})"

definition isDigit :: "char \<Rightarrow> bool" where
  "isDigit c = (c \<in> set ''0123456789'')"

text \<open>\<open>s.split(c)\<close> for a separator of one character.\<close>

fun splitOn :: "char \<Rightarrow> string \<Rightarrow> string list" where
  "splitOn c [] = [[]]"
| "splitOn c (x # xs) =
     (if x = c then [] # splitOn c xs
      else (case splitOn c xs of
              [] \<Rightarrow> [[x]]
            | w # ws \<Rightarrow> (x # w) # ws))"

text \<open>\<open>s.split(/\s+/)\<close>; the flag says that the character before was white space.\<close>

fun splitRuns :: "bool \<Rightarrow> string \<Rightarrow> string list" where
  "splitRuns prev [] = [[]]"
| "splitRuns prev (x # xs) =
     (if isSpace x then (if prev then splitRuns True xs else [] # splitRuns True xs)
      else (case splitRuns False xs of
              [] \<Rightarrow> [[x]]
            | w # ws \<Rightarrow> (x # w) # ws))"

definition splitSpaces :: "string \<Rightarrow> string list" where
  "splitSpaces s = splitRuns False s"

text \<open>\<open>s.includes(t)\<close>.\<close>

fun includesStr :: "string \<Rightarrow> string \<Rightarrow> bool" where
  "includesStr [] t = (t = [])"
| "includesStr (x # xs) t = (startsWith (x # xs) t \<or> includesStr xs t)"

text \<open>
  \<open>parseInt(s)\<close>: leading white space, a sign, the prefix \<open>0x\<close> for radix 16, then the
  longest run of digits; \<open>NaN\<close> (None) when there is no digit. A JavaScript number is a
  double: beyond \<open>2^53\<close> the value is rounded, which the model leaves out.
\<close>

definition digitValue :: "char \<Rightarrow> nat option" where
  "digitValue c =
     map_of (zip ''0123456789abcdefABCDEF''
               [0, 1, 2, 3, 4, 5, 6, 7, 8, 9, 10, 11, 12, 13, 14, 15, 10, 11, 12, 13, 14, 15]) c"

definition isDigitOf :: "nat \<Rightarrow> char \<Rightarrow> bool" where
  "isDigitOf radix c = (case digitValue c of Some k \<Rightarrow> k < radix | None \<Rightarrow> False)"

definition digitOf :: "char \<Rightarrow> nat" where
  "digitOf c = (case digitValue c of Some k \<Rightarrow> k | None \<Rightarrow> 0)"

definition parseInt :: "string \<Rightarrow> int option" where
  "parseInt s =
     (let t = dropWhile isSpace s;
          negative = startsWith t ''-'';
          u = (if startsWith t ''-'' \<or> startsWith t ''+'' then drop 1 t else t);
          hex = (startsWith u ''0x'' \<or> startsWith u ''0X'');
          radix = (if hex then 16 else 10);
          v = (if hex then drop 2 u else u);
          ds = takeWhile (isDigitOf radix) v
      in if ds = [] then None
         else Some ((if negative then - 1 else 1) * int (foldl (\<lambda>a c. a * radix + digitOf c) 0 ds)))"

text \<open>\<open>line.match(/pid:\s*(\d+)/)\<close>: the digits of the leftmost match.\<close>

fun matchPid :: "string \<Rightarrow> string option" where
  "matchPid [] = None"
| "matchPid (x # xs) =
     (let ds = takeWhile isDigit (dropWhile isSpace (drop 4 (x # xs)))
      in if startsWith (x # xs) ''pid:'' \<and> ds \<noteq> [] then Some ds else matchPid xs)"

definition stripQuotes :: "string \<Rightarrow> string" where
  "stripQuotes s = filter (\<lambda>c. c \<noteq> CHR 0x22) s"

text \<open>\<open>s.trim()\<close> is a non-empty string.\<close>

definition nonBlank :: "string \<Rightarrow> bool" where
  "nonBlank s = (\<not> list_all isSpace s)"

text \<open>What each branch of \<open>getProcessesUsingDirectory\<close> pushes for one line of output.\<close>

definition handleLine :: "string \<Rightarrow> proc option" where
  "handleLine line =
     (if includesStr line ''pid:''
      then (case matchPid line of
              Some ds \<Rightarrow> Some \<lparr>pid = parseInt ds, name = ''Unknown''\<rparr>
            | None \<Rightarrow> None)
      else None)"

definition tasklistLine :: "string \<Rightarrow> proc option" where
  "tasklistLine line =
     (let parts = splitOn (CHR '','') line
      in if length parts \<ge> 2
         then Some \<lparr>pid = parseInt (stripQuotes (parts ! 1)), name = stripQuotes (parts ! 0)\<rparr>
         else None)"

definition lsofLine :: "string \<Rightarrow> proc option" where
  "lsofLine line =
     (let parts = splitSpaces line
      in if length parts \<ge> 2 \<and> parseInt (parts ! 1) \<noteq> None
         then Some \<lparr>pid = parseInt (parts ! 1), name = parts ! 0\<rparr>
         else None)"

text \<open>The loop that removes duplicates; \<open>seen\<close> is the set \<open>seenPids\<close>.\<close>

fun uniqueProcesses :: "int option list \<Rightarrow> proc list \<Rightarrow> proc list" where
  "uniqueProcesses seen [] = []"
| "uniqueProcesses seen (p # ps) =
     (if pid p \<in> set seen then uniqueProcesses seen ps
      else p # uniqueProcesses (pid p # seen) ps)"

text \<open>The list \<open>processes\<close> before duplicates are removed.\<close>

definition collectProcesses :: "env \<Rightarrow> string \<Rightarrow> world \<Rightarrow> proc list \<times> world" where
  "collectProcesses e d w =
     (if win32 e then
        (case exec e (HandleExe d) w of
           (Inr result, w1) \<Rightarrow>
             (if \<not> includesStr result ''handle.exe not found''
              then List.map_filter handleLine (splitOn (CHR 0x0A) result) else [], w1)
         | (Inl err, w1) \<Rightarrow>
             (case exec e (Tasklist d) w1 of
                (Inr result, w2) \<Rightarrow>
                  (if nonBlank result
                   then List.map_filter tasklistLine (splitOn (CHR 0x0A) result) else [], w2)
              | (Inl err2, w2) \<Rightarrow> ([], w2)))
      else
        (case exec e (Lsof d) w of
           (Inr result, w1) \<Rightarrow>
             (if nonBlank result
              then List.map_filter lsofLine (splitOn (CHR 0x0A) result) else [], w1)
         | (Inl err, w1) \<Rightarrow> ([], w1)))"

text \<open>The promise of \<open>getProcessesUsingDirectory\<close> is always resolved, by its executor.\<close>

definition getProcessesUsingDirectory :: "env \<Rightarrow> string \<Rightarrow> world \<Rightarrow> proc list \<times> world" where
  "getProcessesUsingDirectory e d w =
     (case collectProcesses e d w of (processes, w1) \<Rightarrow> (uniqueProcesses [] processes, w1))"

text \<open>
  \<open>killProcesses\<close>: the \<open>forEach\<close> with the lists \<open>killed\<close> and \<open>failed\<close>, then the promise:
  rejected with both lists (\<open>Inl\<close>) when \<open>failed\<close> is not empty, resolved with \<open>killed\<close>
  (\<open>Inr\<close>) otherwise.
\<close>

definition killCommand :: "env \<Rightarrow> proc \<Rightarrow> command" where
  "killCommand e p = (if win32 e then Taskkill (pid p) else Kill (pid p))"

fun killEach ::
  "env \<Rightarrow> proc list \<Rightarrow> proc list \<times> (proc \<times> string) list \<Rightarrow> world
    \<Rightarrow> (proc list \<times> (proc \<times> string) list) \<times> world" where
  "killEach e [] acc w = (acc, w)"
| "killEach e (p # ps) acc w =
     (case exec e (killCommand e p) w of
        (Inr out, w1) \<Rightarrow> killEach e ps (fst acc @ [p], snd acc) w1
      | (Inl msg, w1) \<Rightarrow> killEach e ps (fst acc, snd acc @ [(p, msg)]) w1)"

definition killProcesses ::
  "env \<Rightarrow> proc list \<Rightarrow> world
    \<Rightarrow> ((proc list \<times> (proc \<times> string) list) + proc list) \<times> world" where
  "killProcesses e processes w =
     (case killEach e processes ([], []) w of
        ((killed, failed), w1) \<Rightarrow>
          (if length failed > 0 then Inl (killed, failed) else Inr killed, w1))"


section \<open>Orchestrator\<close>

text \<open>
  \<open>rmdirWithConfirmation\<close> returns a promise whose executor runs at once. The executor
  ends in one of four ways: it has rejected the promise with a message, it has resolved
  it, it has chained the callbacks on a promise of \<open>confirmDeletion\<close> that is already
  resolved, or it has chained them on one that waits for the answer.
\<close>

datatype executed = Rejects string | Resolves bool | Chained bool | Waits

definition rmdirWithConfirmation ::
  "env \<Rightarrow> options \<Rightarrow> nat \<Rightarrow> string \<Rightarrow> world \<Rightarrow> executed \<times> world" where
  "rmdirWithConfirmation e opts i d w =
     (case checkDirectory d w of
        (False, w1) \<Rightarrow> (Rejects ''Directory check failed'', w1)
      | (True, w1) \<Rightarrow>
          (case isDirectoryEmpty d w1 of
             (isEmpty, w2) \<Rightarrow>
               if \<not> isEmpty \<and> \<not> force opts \<and> \<not> brutal opts
               then (Rejects ''Directory not empty'',
                     emits [Err (MNotEmpty d), Err MUseForceOrBrutal] w2)
               else if \<not> isEmpty
               then (case confirmDeletion i d opts w2 of
                       (Resolved c, w3) \<Rightarrow> (Chained c, w3)
                     | (Asked, w3) \<Rightarrow> (Waits, w3))
               else (case rmdir e d w2 of
                       (Inr u, w3) \<Rightarrow> (Resolves True, emit (Out (MDeleted d)) w3)
                     | (Inl msg, w3) \<Rightarrow>
                         (Rejects msg, emit (Err (MErrorDeleting d msg)) w3))))"

subsection \<open>Promises and the job queue\<close>

text \<open>
  The callbacks chained with \<open>then\<close> and \<open>catch\<close> run as jobs of the microtask queue, in
  the order in which they were put there. A job of the model is one callback of the
  script with the values it closes over, or a reaction of the promise machinery:

  \<^item> \<open>Confirmed i d c\<close>: the first \<open>then\<close> callback of target \<open>i\<close> (path \<open>d\<close>), called with
    \<open>confirmed = c\<close>;
  \<^item> \<open>Scanned i d ps\<close>: the callback on the promise of \<open>getProcessesUsingDirectory\<close>;
  \<^item> \<open>KilledAll i d killed\<close> and \<open>KillFailed i d killed failed\<close>: the \<open>then\<close> and the \<open>catch\<close>
    callback on the promise of \<open>killProcesses\<close>;
  \<^item> \<open>Delete i d\<close>: the second \<open>then\<close> callback, which calls \<open>rmdir\<close>;
  \<^item> \<open>Settle i\<close>: the reaction that \<open>Promise.all\<close> has registered on the promise of
    target \<open>i\<close>;
  \<^item> \<open>OnAll\<close>: the callback on the promise of \<open>Promise.all\<close>, with the summary;
  \<^item> \<open>PassReject m\<close>: the rejection of \<open>Promise.all\<close> passing through the \<open>then\<close> that has
    no rejection handler; \<open>OnError m\<close>: the final \<open>catch\<close> callback;
  \<^item> \<open>Tick n j\<close>: \<open>n + 1\<close> jobs in a row that only settle an intermediate promise, the
    last of which puts \<open>j\<close> into the queue. A callback that returns a promise costs
    two such jobs before the next callback of the chain is queued, and a handler that
    is missing (the \<open>then\<close> side of a \<open>catch\<close>, or the reverse) costs one.

  Jobs that only register a reaction on a promise that is still pending, and the last
  pass-through of each chain, change nothing and put nothing into the queue; the model
  leaves them out.
\<close>

datatype job =
    Tick nat job
  | Confirmed nat string bool
  | Scanned nat string "proc list"
  | KilledAll nat string "proc list"
  | KillFailed nat string "proc list" "(proc \<times> string) list"
  | Delete nat string
  | Settle nat
  | OnAll
  | PassReject string
  | OnError string

datatype pstate = Pending | Fulfilled bool | Rejected string

datatype allstate = AllPending | AllFulfilled | AllRejected string

text \<open>
  The state of a run: the world, the job queue, the promise of each target, the values
  array and the state of the promise of \<open>Promise.all\<close>, the questions that wait for
  their line, and the exit status once \<open>process.exit\<close> has been called.
\<close>

record sched =
  wld :: world
  total :: nat
  queue :: "job list"
  promises :: "nat \<Rightarrow> pstate"
  vals :: "nat \<Rightarrow> bool option"
  allst :: allstate
  waiting :: "(nat \<times> string) list"
  exited :: "nat option"

definition enqueue :: "job list \<Rightarrow> sched \<Rightarrow> sched" where
  "enqueue js s = s\<lparr>queue := queue s @ js\<rparr>"

text \<open>
  \<open>resolve\<close> and \<open>reject\<close> of a target's promise after \<open>Promise.all\<close> has registered its
  reaction: only the first call has an effect.
\<close>

definition settle :: "nat \<Rightarrow> pstate \<Rightarrow> sched \<Rightarrow> sched" where
  "settle i r s =
     (if promises s i = Pending
      then enqueue [Settle i] (s\<lparr>promises := (promises s)(i := r)\<rparr>)
      else s)"

definition confirmedJob :: "env \<Rightarrow> options \<Rightarrow> nat \<Rightarrow> string \<Rightarrow> bool \<Rightarrow> sched \<Rightarrow> sched" where
  "confirmedJob e opts i d confirmed s =
     (if \<not> confirmed then enqueue [Delete i d] (settle i (Fulfilled False) s)
      else if brutal opts then
        (case getProcessesUsingDirectory e d (emit (Out MChecking) (wld s)) of
           (processes, w1) \<Rightarrow> enqueue [Scanned i d processes] (s\<lparr>wld := w1\<rparr>))
      else enqueue [Tick 1 (Delete i d)] s)"

definition scannedJob :: "env \<Rightarrow> nat \<Rightarrow> string \<Rightarrow> proc list \<Rightarrow> sched \<Rightarrow> sched" where
  "scannedJob e i d processes s =
     (if length processes > 0 then
        (case killProcesses e processes
                (emits (Out (MFound (length processes))
                        # map (\<lambda>p. Out (MPid (pid p) (name p))) processes
                        @ [Out MAttempting]) (wld s)) of
           (Inr killed, w1) \<Rightarrow> enqueue [KilledAll i d killed] (s\<lparr>wld := w1\<rparr>)
         | (Inl (killed, failed), w1) \<Rightarrow>
             enqueue [Tick 0 (KillFailed i d killed failed)] (s\<lparr>wld := w1\<rparr>))
      else enqueue [Tick 1 (Delete i d)] (s\<lparr>wld := emit (Out MNoProcesses) (wld s)\<rparr>))"

definition killedAllJob :: "nat \<Rightarrow> string \<Rightarrow> proc list \<Rightarrow> sched \<Rightarrow> sched" where
  "killedAllJob i d killed s =
     enqueue [Tick 3 (Delete i d)] (s\<lparr>wld := emit (Out (MKilled (length killed))) (wld s)\<rparr>)"

definition killFailedJob ::
  "nat \<Rightarrow> string \<Rightarrow> proc list \<Rightarrow> (proc \<times> string) list \<Rightarrow> sched \<Rightarrow> sched" where
  "killFailedJob i d killed failed s =
     enqueue [Tick 2 (Delete i d)]
       (s\<lparr>wld := emits
           ([Out MCouldNotKillAll]
            @ (if length killed > 0 then [Out (MKilledSome (length killed))] else [])
            @ (if length failed > 0
               then Out (MFailedSome (length failed))
                    # map (\<lambda>f. Out (MFailedPid (pid (fst f)) (snd f))) failed
               else []))
           (wld s)\<rparr>)"

definition deleteJob :: "env \<Rightarrow> nat \<Rightarrow> string \<Rightarrow> sched \<Rightarrow> sched" where
  "deleteJob e i d s =
     (case rmdir e d (emit (Out (MDeleting d)) (wld s)) of
        (Inr u, w1) \<Rightarrow> settle i (Fulfilled True) (s\<lparr>wld := emit (Out (MDeleted d)) w1\<rparr>)
      | (Inl msg, w1) \<Rightarrow>
          settle i (Rejected msg) (s\<lparr>wld := emit (Err (MErrorDeleting d msg)) w1\<rparr>))"

definition allRecorded :: "sched \<Rightarrow> bool" where
  "allRecorded s = list_all (\<lambda>i. vals s i \<noteq> None) [0..<total s]"

definition settleJob :: "nat \<Rightarrow> sched \<Rightarrow> sched" where
  "settleJob i s =
     (case promises s i of
        Fulfilled b \<Rightarrow>
          (let s1 = s\<lparr>vals := (vals s)(i := Some b)\<rparr>
           in if allRecorded s1 \<and> allst s1 = AllPending
              then enqueue [OnAll] (s1\<lparr>allst := AllFulfilled\<rparr>)
              else s1)
      | Rejected msg \<Rightarrow>
          (if allst s = AllPending
           then enqueue [PassReject msg] (s\<lparr>allst := AllRejected msg\<rparr>)
           else s)
      | Pending \<Rightarrow> s)"

definition successCount :: "sched \<Rightarrow> nat" where
  "successCount s = length (filter (\<lambda>i. vals s i = Some True) [0..<total s])"

definition onAllJob :: "sched \<Rightarrow> sched" where
  "onAllJob s =
     (if successCount s = total s
      then s\<lparr>wld := emit (Out MAllDeleted) (wld s), exited := Some 0\<rparr>
      else s\<lparr>wld := emit (Out (MSummary (successCount s) (total s))) (wld s),
             exited := Some 1\<rparr>)"

definition onErrorJob :: "string \<Rightarrow> sched \<Rightarrow> sched" where
  "onErrorJob msg s = s\<lparr>wld := emit (Err (MOperationFailed msg)) (wld s), exited := Some 1\<rparr>"

fun step :: "env \<Rightarrow> options \<Rightarrow> job \<Rightarrow> sched \<Rightarrow> sched" where
  "step e opts (Tick 0 j) s = enqueue [j] s"
| "step e opts (Tick (Suc n) j) s = enqueue [Tick n j] s"
| "step e opts (Confirmed i d c) s = confirmedJob e opts i d c s"
| "step e opts (Scanned i d ps) s = scannedJob e i d ps s"
| "step e opts (KilledAll i d killed) s = killedAllJob i d killed s"
| "step e opts (KillFailed i d killed failed) s = killFailedJob i d killed failed s"
| "step e opts (Delete i d) s = deleteJob e i d s"
| "step e opts (Settle i) s = settleJob i s"
| "step e opts OnAll s = onAllJob s"
| "step e opts (PassReject msg) s = enqueue [OnError msg] s"
| "step e opts (OnError msg) s = onErrorJob msg s"

text \<open>
  Standard input is read while questions wait. Every \<open>readline\<close> interface listens on
  the same stream, so the waiting questions are served in the same turn of the event
  loop, in the order in which the interfaces were created. A question that receives a
  line is answered: the promise of its \<open>confirmDeletion\<close> is resolved and the first
  callback of the target is queued. A question that meets the end of input is dropped:
  its callback is never called, and the promise of its target stays pending for good.
\<close>

fun deliver :: "env \<Rightarrow> (nat \<times> string) list \<Rightarrow> sched \<Rightarrow> sched" where
  "deliver e [] s = s"
| "deliver e (t # ts) s =
     (if endOfInput e (fst t) then deliver e ts s
      else
        (case answered (answer e (fst t)) (wld s) of
           (c, w1) \<Rightarrow> deliver e ts (enqueue [Confirmed (fst t) (snd t) c] (s\<lparr>wld := w1\<rparr>))))"

text \<open>The number of jobs that a job can still cause, itself included.\<close>

fun weight :: "job \<Rightarrow> nat" where
  "weight (Tick n j) = Suc n + weight j"
| "weight (Confirmed i d c) = 12"
| "weight (Scanned i d ps) = 11"
| "weight (KilledAll i d killed) = 10"
| "weight (KillFailed i d killed failed) = 9"
| "weight (Delete i d) = 5"
| "weight (Settle i) = 4"
| "weight OnAll = 1"
| "weight (PassReject msg) = 2"
| "weight (OnError msg) = 1"

definition remaining :: "sched \<Rightarrow> nat" where
  "remaining s =
     (case exited s of
        Some code \<Rightarrow> 0
      | None \<Rightarrow> 1 + sum_list (map weight (queue s)) + 13 * length (waiting s))"


text \<open>
  The event loop: jobs run from the head of the queue until \<open>process.exit\<close> is called;
  when the queue is empty, input is read for the questions that wait; when nothing is
  left the loop ends, and the process ends without a call of \<open>process.exit\<close>: \<open>exited\<close> is
  still \<open>None\<close>, and the status of the process is 0.
\<close>

lemma step_waiting: "waiting (step e opts j s) = waiting s"
  by (cases "(e, opts, j, s)" rule: step.cases)
     (auto simp: enqueue_def settle_def confirmedJob_def scannedJob_def killedAllJob_def
        killFailedJob_def deleteJob_def settleJob_def onAllJob_def onErrorJob_def Let_def
        split: prod.splits sum.splits pstate.splits)

lemma step_weight:
  "sum_list (map weight (queue (step e opts j s))) < weight j + sum_list (map weight (queue s))"
  by (cases "(e, opts, j, s)" rule: step.cases)
     (auto simp: enqueue_def settle_def confirmedJob_def scannedJob_def killedAllJob_def
        killFailedJob_def deleteJob_def settleJob_def onAllJob_def onErrorJob_def Let_def
        split: prod.splits sum.splits pstate.splits)

lemma deliver_waiting: "waiting (deliver e ts s) = waiting s"
  by (induction ts arbitrary: s) (auto simp: enqueue_def split: prod.splits)

lemma deliver_exited: "exited (deliver e ts s) = exited s"
  by (induction ts arbitrary: s) (auto simp: enqueue_def split: prod.splits)

lemma deliver_weight:
  "sum_list (map weight (queue (deliver e ts s))) \<le> sum_list (map weight (queue s)) + 12 * length ts"
proof (induction ts arbitrary: s)
  case Nil
  show ?case by simp
next
  case (Cons t ts)
  show ?case
  proof (cases "endOfInput e (fst t)")
    case True
    then show ?thesis using Cons [of s] by simp
  next
    case False
    obtain c w1 where a: "answered (answer e (fst t)) (wld s) = (c, w1)" by force
    show ?thesis
      using False a Cons [of "enqueue [Confirmed (fst t) (snd t) c] (s\<lparr>wld := w1\<rparr>)"]
      by (simp add: enqueue_def)
  qed
qed

function run :: "env \<Rightarrow> options \<Rightarrow> sched \<Rightarrow> sched" where
  "run e opts s =
     (case exited s of
        Some code \<Rightarrow> s
      | None \<Rightarrow>
          (case queue s of
             j # q \<Rightarrow> run e opts (step e opts j (s\<lparr>queue := q\<rparr>))
           | [] \<Rightarrow>
               (if waiting s = [] then s
                else run e opts (deliver e (waiting s) (s\<lparr>waiting := []\<rparr>)))))"
  by pat_completeness auto
termination
proof (relation "measure (\<lambda>(e, opts, s). remaining s)")
  show "wf (measure (\<lambda>(e, opts, s). remaining s))" by simp
next
  fix e opts and s :: sched and j q
  assume "exited s = None" "queue s = j # q"
  then show "((e, opts, step e opts j (s\<lparr>queue := q\<rparr>)), e, opts, s)
              \<in> measure (\<lambda>(e, opts, s). remaining s)"
    using step_weight [of e opts j "s\<lparr>queue := q\<rparr>"] step_waiting [of e opts j "s\<lparr>queue := q\<rparr>"]
    by (simp add: remaining_def split: option.splits)
next
  fix e opts and s :: sched
  assume "exited s = None" "queue s = []" "waiting s \<noteq> []"
  then have "sum_list (map weight (queue (deliver e (waiting s) (s\<lparr>waiting := []\<rparr>))))
               \<le> 12 * length (waiting s)"
    and "0 < length (waiting s)"
    using deliver_weight [of e "waiting s" "s\<lparr>waiting := []\<rparr>"] by simp_all
  then have "sum_list (map weight (queue (deliver e (waiting s) (s\<lparr>waiting := []\<rparr>))))
               < 13 * length (waiting s)"
    by linarith
  then have "remaining (deliver e (waiting s) (s\<lparr>waiting := []\<rparr>)) < remaining s"
    using \<open>exited s = None\<close> \<open>queue s = []\<close>
    by (simp add: remaining_def deliver_waiting deliver_exited)
  then show "((e, opts, deliver e (waiting s) (s\<lparr>waiting := []\<rparr>)), e, opts, s)
              \<in> measure (\<lambda>(e, opts, s). remaining s)"
    by simp
qed

declare run.simps [simp del]


subsection \<open>The main script\<close>

definition initial :: "nat \<Rightarrow> world \<Rightarrow> sched" where
  "initial n w =
     \<lparr>wld = w, total = n, queue = [], promises = (\<lambda>i. Pending), vals = (\<lambda>i. None),
      allst = AllPending, waiting = [], exited = None\<rparr>"

text \<open>
  One call of the function that \<open>options.directories.map\<close> applies: the executor runs,
  and \<open>then\<close> on a promise that is already resolved queues its callback at once.
\<close>

definition start :: "env \<Rightarrow> options \<Rightarrow> nat \<Rightarrow> string \<Rightarrow> sched \<Rightarrow> sched" where
  "start e opts i d s =
     (case rmdirWithConfirmation e opts i d (wld s) of
        (Rejects msg, w1) \<Rightarrow> s\<lparr>wld := w1, promises := (promises s)(i := Rejected msg)\<rparr>
      | (Resolves b, w1) \<Rightarrow> s\<lparr>wld := w1, promises := (promises s)(i := Fulfilled b)\<rparr>
      | (Chained c, w1) \<Rightarrow> enqueue [Confirmed i d c] (s\<lparr>wld := w1\<rparr>)
      | (Waits, w1) \<Rightarrow> s\<lparr>wld := w1, waiting := waiting s @ [(i, d)]\<rparr>)"

fun startAll :: "env \<Rightarrow> options \<Rightarrow> nat \<Rightarrow> string list \<Rightarrow> sched \<Rightarrow> sched" where
  "startAll e opts i [] s = s"
| "startAll e opts i (d # ds) s = startAll e opts (Suc i) ds (start e opts i d s)"

text \<open>\<open>Promise.all\<close> registers its reaction on every promise; a settled one queues it.\<close>

definition promiseAll :: "sched \<Rightarrow> sched" where
  "promiseAll s =
     enqueue (map Settle (filter (\<lambda>i. promises s i \<noteq> Pending) [0..<total s])) s"

text \<open>The last branch of the main script, and the script with its early exits.\<close>

definition processAll :: "env \<Rightarrow> options \<Rightarrow> world \<Rightarrow> sched" where
  "processAll e opts w =
     run e opts
       (promiseAll (startAll e opts 0 (directories opts)
          (initial (length (directories opts)) w)))"

definition halted :: "nat \<Rightarrow> world \<Rightarrow> sched" where
  "halted code w = (initial 0 w)\<lparr>exited := Some code\<rparr>"

definition main :: "env \<Rightarrow> string list \<Rightarrow> world \<Rightarrow> sched" where
  "main e args w =
     (case parseArgs args of
        Inl arg \<Rightarrow> halted 1 (emits [Err (MUnknownOption arg), Out MUsage] w)
      | Inr opts \<Rightarrow>
          if help' opts then halted 0 (emit (Out MUsage) w)
          else if version' opts then halted 0 (emit (Out MVersion) w)
          else if length (directories opts) = 0
          then halted 1 (emits [Err MNoDirectory, Out MUsage] w)
          else processAll e opts w)"

text \<open>
  The status with which the process ends: the argument of \<open>process.exit\<close>, or 0 when the
  event loop ends without that call.
\<close>

definition exitStatus :: "sched \<Rightarrow> nat" where
  "exitStatus s = (case exited s of Some code \<Rightarrow> code | None \<Rightarrow> 0)"

section \<open>The claims of the specification, as definitions\<close>

text \<open>The events that put a question to the user.\<close>

definition isQuestion :: "event \<Rightarrow> bool" where
  "isQuestion ev = (case ev of Question i b \<Rightarrow> True | _ \<Rightarrow> False)"


text \<open>
  \<open>computeSize\<close> as the specification words it: every regular file below the path adds
  its length and counts as one file, directories are not counted, and a subtree that
  cannot be read adds nothing. \<open>specSize\<close> is what one entry adds.
\<close>

fun specSize :: "node \<Rightarrow> nat \<times> nat"
  and specSizeEntries :: "(string \<times> node) list \<Rightarrow> nat \<times> nat" where
  "specSize (File n) = (n, 1)"
| "specSize (Dir es) = specSizeEntries es"
| "specSize Sealed = (0, 0)"
| "specSize (NoStat err) = (0, 0)"
| "specSizeEntries [] = (0, 0)"
| "specSizeEntries (fe # es) =
     (fst (specSize (snd fe)) + fst (specSizeEntries es),
      snd (specSize (snd fe)) + snd (specSizeEntries es))"

definition computeSize_spec :: "node \<Rightarrow> nat \<times> nat" where
  "computeSize_spec n = (case n of Dir es \<Rightarrow> specSizeEntries es | _ \<Rightarrow> (0, 0))"

text \<open>
  The part of a tree that \<open>walkDir\<close> reaches: in each directory, the entries before the
  first one whose \<open>statSync\<close> throws. \<open>statable\<close>: no entry of the tree is of that kind.
\<close>

fun reached :: "node \<Rightarrow> node"
  and reachedEntries :: "(string \<times> node) list \<Rightarrow> (string \<times> node) list" where
  "reached (Dir es) = Dir (reachedEntries es)"
| "reached (File n) = File n"
| "reached Sealed = Sealed"
| "reached (NoStat err) = NoStat err"
| "reachedEntries [] = []"
| "reachedEntries (fe # es) =
     (case snd fe of
        NoStat err \<Rightarrow> []
      | _ \<Rightarrow> (fst fe, reached (snd fe)) # reachedEntries es)"

fun statable :: "node \<Rightarrow> bool"
  and statableEntries :: "(string \<times> node) list \<Rightarrow> bool" where
  "statable (Dir es) = statableEntries es"
| "statable (File n) = True"
| "statable Sealed = True"
| "statable (NoStat err) = False"
| "statableEntries [] = True"
| "statableEntries (fe # es) = (statable (snd fe) \<and> statableEntries es)"


text \<open>Sample worlds, options and environments for the closed instances below.\<close>

definition brokenWorld :: world where
  "brokenWorld =
     \<lparr>fs = (\<lambda>p. NoStat ENOENT)(''d'' := Dir [(''a'', NoStat ENOENT), (''b'', File 10)]),
      clock = 0, trace = []\<rparr>"

definition askingOptions :: options where
  "askingOptions = defaultOptions\<lparr>force := True, brutal := True\<rparr>"

definition decliningEnv :: env where
  "decliningEnv =
     \<lparr>win32 = False, execSync = (\<lambda>n c. Inr []), rmdirError = (\<lambda>n d. None),
      rmdirEffect = (\<lambda>n d f. f(d := NoStat ENOENT)),
      answer = (\<lambda>i. ''no''), endOfInput = (\<lambda>i. False)\<rparr>"

text \<open>
  The outcome of the termination command for the process \<open>snd kp\<close> when it is the
  external command number \<open>fst kp\<close> of the run: whether it returns, and the entry of
  \<open>failed\<close> when it throws.
\<close>

definition succeeds :: "env \<Rightarrow> nat \<times> proc \<Rightarrow> bool" where
  "succeeds e kp = (case execSync e (fst kp) (killCommand e (snd kp)) of Inr out \<Rightarrow> True | Inl msg \<Rightarrow> False)"

definition failure :: "env \<Rightarrow> nat \<times> proc \<Rightarrow> proc \<times> string" where
  "failure e kp = (snd kp, case execSync e (fst kp) (killCommand e (snd kp)) of Inr out \<Rightarrow> [] | Inl msg \<Rightarrow> msg)"


text \<open>
  Sample environments: an \<open>lsof\<close> that prints a header, two lines with the same pid and a
  last process that cannot be killed; a \<open>handle.exe\<close> that runs into the timeout before a
  \<open>tasklist\<close> that finds one process; and the same with a \<open>tasklist\<close> whose header line
  passes the \<open>findstr\<close> filter.
\<close>

definition lsofEnv :: env where
  "lsofEnv =
     \<lparr>win32 = False,
      execSync = (\<lambda>n c. case c of
         Lsof d \<Rightarrow> Inr (''COMMAND PID USER'' @ [CHR 0x0A] @ ''node    12 me'' @ [CHR 0x0A]
                        @ ''npm 12 me'' @ [CHR 0x0A] @ ''vim 7 me'' @ [CHR 0x0A])
       | Kill p \<Rightarrow> (if p = Some 7 then Inl ''Operation not permitted'' else Inr [])
       | _ \<Rightarrow> Inl ''not found''),
      rmdirError = (\<lambda>n d. None),
      rmdirEffect = (\<lambda>n d f. f(d := NoStat ENOENT)),
      answer = (\<lambda>i. ''y''), endOfInput = (\<lambda>i. False)\<rparr>"

definition handleTimeoutEnv :: env where
  "handleTimeoutEnv =
     \<lparr>win32 = True,
      execSync = (\<lambda>n c. case c of
         HandleExe d \<Rightarrow> Inl ''spawnSync ETIMEDOUT''
       | Tasklist d \<Rightarrow> Inr ([CHR 0x22] @ ''node.exe'' @ [CHR 0x22] @ '','' @ [CHR 0x22] @ ''1234''
                            @ [CHR 0x22] @ '','' @ [CHR 0x22] @ ''Console'' @ [CHR 0x22])
       | _ \<Rightarrow> Inr []),
      rmdirError = (\<lambda>n d. None),
      rmdirEffect = (\<lambda>n d f. f(d := NoStat ENOENT)),
      answer = (\<lambda>i. ''y''), endOfInput = (\<lambda>i. False)\<rparr>"

definition headerEnv :: env where
  "headerEnv =
     \<lparr>win32 = True,
      execSync = (\<lambda>n c. case c of
         HandleExe d \<Rightarrow> Inl ''spawnSync ETIMEDOUT''
       | Tasklist d \<Rightarrow> Inr ([CHR 0x22] @ ''Image Name'' @ [CHR 0x22] @ '','' @ [CHR 0x22] @ ''PID''
                            @ [CHR 0x22] @ '','' @ [CHR 0x22] @ ''Session Name'' @ [CHR 0x22])
       | _ \<Rightarrow> Inr []),
      rmdirError = (\<lambda>n d. None),
      rmdirEffect = (\<lambda>n d f. f(d := NoStat ENOENT)),
      answer = (\<lambda>i. ''y''), endOfInput = (\<lambda>i. False)\<rparr>"

text \<open>
  What a job of the queue is for: it carries the chain of a target on, it is the reaction
  of \<open>Promise.all\<close> to a target, it leads to the summary, or to the final error line.
\<close>

datatype fate = Carries nat | Reacts nat | Summary | Failing string

fun fateOf :: "job \<Rightarrow> fate" where
  "fateOf (Tick n j) = fateOf j"
| "fateOf (Confirmed i d c) = Carries i"
| "fateOf (Scanned i d ps) = Carries i"
| "fateOf (KilledAll i d killed) = Carries i"
| "fateOf (KillFailed i d killed failed) = Carries i"
| "fateOf (Delete i d) = Carries i"
| "fateOf (Settle i) = Reacts i"
| "fateOf OnAll = Summary"
| "fateOf (PassReject msg) = Failing msg"
| "fateOf (OnError msg) = Failing msg"

definition fates :: "sched \<Rightarrow> fate set" where
  "fates s = fateOf ` set (queue s)"

text \<open>
  The facts that hold of the queue and the promises throughout a run: indices are those
  of targets; what \<open>Promise.all\<close> has recorded agrees with the promises; the exit status
  agrees with the promises; and, as long as the process has not exited, every promise
  that is pending has a job or a question that will settle it, unless its question
  meets the end of input, every settled promise has its reaction queued or recorded,
  and the promise of \<open>Promise.all\<close> has its own.
\<close>

definition bounded :: "sched \<Rightarrow> bool" where
  "bounded s =
     ((\<forall>i. Carries i \<in> fates s \<longrightarrow> i < total s)
      \<and> (\<forall>i. Reacts i \<in> fates s \<longrightarrow> i < total s \<and> promises s i \<noteq> Pending)
      \<and> (\<forall>i \<in> fst ` set (waiting s). i < total s))"

definition recorded :: "sched \<Rightarrow> bool" where
  "recorded s =
     ((\<forall>i b. vals s i = Some b \<longrightarrow> promises s i = Fulfilled b)
      \<and> (allst s = AllFulfilled \<longrightarrow> (\<forall>i < total s. vals s i \<noteq> None))
      \<and> (\<forall>m. allst s = AllRejected m \<longrightarrow> (\<exists>i < total s. promises s i = Rejected m))
      \<and> (Summary \<in> fates s \<longrightarrow> allst s = AllFulfilled)
      \<and> (\<forall>m. Failing m \<in> fates s \<longrightarrow> allst s = AllRejected m))"

definition verdict :: "sched \<Rightarrow> bool" where
  "verdict s =
     (\<forall>c. exited s = Some c \<longrightarrow>
        (c = 0 \<and> (\<forall>i < total s. promises s i = Fulfilled True))
        \<or> (c = 1 \<and> (\<exists>i < total s. promises s i \<noteq> Fulfilled True)))"

definition alive :: "env \<Rightarrow> sched \<Rightarrow> bool" where
  "alive e s =
     (exited s = None \<longrightarrow>
        (\<forall>i < total s. promises s i = Pending \<longrightarrow>
            i \<in> fst ` set (waiting s) \<or> Carries i \<in> fates s \<or> endOfInput e i)
        \<and> (\<forall>i < total s. vals s i = None \<longrightarrow> promises s i \<noteq> Pending \<longrightarrow>
              Reacts i \<in> fates s \<or> (\<exists>m. promises s i = Rejected m \<and> allst s \<noteq> AllPending))
        \<and> (\<forall>m. allst s = AllRejected m \<longrightarrow> Failing m \<in> fates s)
        \<and> (allst s = AllFulfilled \<longrightarrow> Summary \<in> fates s)
        \<and> (allst s = AllPending \<longrightarrow> (\<exists>i < total s. vals s i = None)))"

definition consistent :: "env \<Rightarrow> sched \<Rightarrow> bool" where
  "consistent e s = (bounded s \<and> recorded s \<and> verdict s \<and> alive e s)"


text \<open>The state while \<open>map\<close> runs the executors, before target \<open>k\<close> is started.\<close>

definition launching :: "nat \<Rightarrow> sched \<Rightarrow> bool" where
  "launching k s =
     (exited s = None \<and> allst s = AllPending \<and> (\<forall>i. vals s i = None)
      \<and> (\<forall>f \<in> fates s. \<exists>i < k. f = Carries i)
      \<and> (\<forall>i \<in> fst ` set (waiting s). i < k)
      \<and> (\<forall>i. k \<le> i \<longrightarrow> promises s i = Pending)
      \<and> (\<forall>i < k. promises s i = Pending \<longrightarrow> i \<in> fst ` set (waiting s) \<or> Carries i \<in> fates s))"

text \<open>
  \<open>grows P w w'\<close>: the trace of \<open>w'\<close> is the trace of \<open>w\<close> followed by events that all
  satisfy \<open>P\<close>.
\<close>

definition grows :: "(event \<Rightarrow> bool) \<Rightarrow> world \<Rightarrow> world \<Rightarrow> bool" where
  "grows P w w' = (\<exists>evs. trace w' = trace w @ evs \<and> list_all P evs)"


text \<open>The events that begin the inspection of a target.\<close>

definition isStat :: "event \<Rightarrow> bool" where
  "isStat ev = (case ev of Stat d \<Rightarrow> True | _ \<Rightarrow> False)"

text \<open>
  The specification's strict sequencing of two targets \<open>a\<close> and \<open>b\<close>, listed in this
  order, read on a trace: once the inspection of \<open>b\<close> has begun, nothing of \<open>a\<close> is
  deleted any more.
\<close>

definition strictlySequential :: "event list \<Rightarrow> string \<Rightarrow> string \<Rightarrow> bool" where
  "strictlySequential tr a b = (Remove a \<notin> set (dropWhile (\<lambda>ev. ev \<noteq> Stat b) tr))"

text \<open>
  A file system with two non-empty directories and an empty one; an environment whose
  recursive deleter always throws.
\<close>

definition twoDirs :: world where
  "twoDirs =
     \<lparr>fs = (\<lambda>p. NoStat ENOENT)(''a'' := Dir [(''f'', File 3)], ''b'' := Dir [(''g'', File 4)],
                                ''e'' := Dir []),
      clock = 0, trace = []\<rparr>"

definition busyEnv :: env where
  "busyEnv =
     \<lparr>win32 = False, execSync = (\<lambda>n c. Inr []), rmdirError = (\<lambda>n d. Some ''EBUSY''),
      rmdirEffect = (\<lambda>n d f. f),
      answer = (\<lambda>i. ''y''), endOfInput = (\<lambda>i. False)\<rparr>"

text \<open>
  A state of the job queue in which no job of a deletion chain is queued and no answer is
  awaited; a line written to standard output or standard error.
\<close>

definition quiet :: "sched \<Rightarrow> bool" where
  "quiet s = ((\<forall>i. Carries i \<notin> fates s) \<and> waiting s = [])"

definition isLine :: "event \<Rightarrow> bool" where
  "isLine ev = (case ev of Out m \<Rightarrow> True | Err m \<Rightarrow> True | _ \<Rightarrow> False)"

text \<open>
  How a run ends. \<open>successes\<close> counts the targets whose promise is fulfilled with \<open>true\<close>. In
  a state that \<open>ending\<close> holds of, a run that has exited has written a last line: either
  some target's promise is rejected with a message, the line is \<open>Operation failed\<close> with
  that message and the status is 1; or every promise is fulfilled and the line is the
  summary, with status 0 when all are \<open>true\<close> and status 1 with the count otherwise.
\<close>

definition successes :: "sched \<Rightarrow> nat" where
  "successes s = length (filter (\<lambda>i. promises s i = Fulfilled True) [0..<total s])"

definition ending :: "sched \<Rightarrow> bool" where
  "ending s =
     (\<forall>c. exited s = Some c \<longrightarrow>
        trace (wld s) \<noteq> []
        \<and> ((\<exists>m. (\<exists>i < total s. promises s i = Rejected m)
                 \<and> last (trace (wld s)) = Err (MOperationFailed m) \<and> c = 1)
            \<or> ((\<forall>i < total s. \<exists>b. promises s i = Fulfilled b)
                \<and> last (trace (wld s))
                     = (if successes s = total s then Out MAllDeleted
                        else Out (MSummary (successes s) (total s)))
                \<and> c = (if successes s = total s then 0 else 1))))"

text \<open>What the promise of a target that is missing or an empty directory settles to.\<close>

definition outcome :: "node \<Rightarrow> pstate" where
  "outcome n = (if n = Dir [] then Fulfilled True else Rejected ''Directory check failed'')"

text \<open>
  The jobs of a target's chain that come after its consent and lead to the deletion of the
  directory \<open>d\<close>; a state in which such a job is the only thing left to do.
\<close>

fun reachesDelete :: "job \<Rightarrow> string \<Rightarrow> bool" where
  "reachesDelete (Tick n j) d = reachesDelete j d"
| "reachesDelete (Confirmed i d' c) d = (c \<and> d' = d)"
| "reachesDelete (Scanned i d' ps) d = (d' = d)"
| "reachesDelete (KilledAll i d' killed) d = (d' = d)"
| "reachesDelete (KillFailed i d' killed failed) d = (d' = d)"
| "reachesDelete (Delete i d') d = (d' = d)"
| "reachesDelete j d = False"

definition awaits :: "string \<Rightarrow> sched \<Rightarrow> bool" where
  "awaits d s = (exited s = None \<and> waiting s = [] \<and> (\<exists>j. queue s = [j] \<and> reachesDelete j d))"

text \<open>Two processes, of which the sample \<open>kill\<close> refuses the second.\<close>

definition twoProcesses :: "proc list" where
  "twoProcesses = [\<lparr>pid = Some 12, name = ''node''\<rparr>, \<lparr>pid = Some 7, name = ''vim''\<rparr>]"

text \<open>
  The state of the run when \<open>map\<close> has called the function for the first \<open>k\<close> targets, and
  what the path of target number \<open>k\<close> finds at that moment, when its inspection begins.
\<close>

definition pass :: "env \<Rightarrow> options \<Rightarrow> world \<Rightarrow> nat \<Rightarrow> sched" where
  "pass e opts w k =
     startAll e opts 0 (take k (directories opts)) (initial (length (directories opts)) w)"

definition whenInspected :: "env \<Rightarrow> options \<Rightarrow> world \<Rightarrow> nat \<Rightarrow> node" where
  "whenInspected e opts w k = fs (wld (pass e opts w k)) (directories opts ! k)"

text \<open>
  A directory \<open>a\<close> that holds nothing but the empty directory \<open>b\<close>, seen through the two
  paths \<open>a\<close> and \<open>a/b\<close>; and an \<open>rmdir\<close> for it: once \<open>a/b\<close> is removed, \<open>a\<close> is an empty
  directory.
\<close>

definition nestedDirs :: world where
  "nestedDirs =
     \<lparr>fs = (\<lambda>p. NoStat ENOENT)(''a'' := Dir [(''b'', Dir [])], ''a/b'' := Dir []),
      clock = 0, trace = []\<rparr>"

definition nestedEnv :: env where
  "nestedEnv =
     \<lparr>win32 = False, execSync = (\<lambda>n c. Inr []), rmdirError = (\<lambda>n d. None),
      rmdirEffect = (\<lambda>n d f. if d = ''a/b'' then f(''a/b'' := NoStat ENOENT, ''a'' := Dir [])
                              else f(d := NoStat ENOENT)),
      answer = (\<lambda>i. ''no''), endOfInput = (\<lambda>i. False)\<rparr>"

text \<open>
  The events of the executor of a target: the calls of \<open>statSync\<close>, \<open>readdirSync\<close> and
  \<open>rmdir\<close>, the question, and the lines of the inspection, of the size report and of the
  removal of an empty directory. The events that are left for later: all but the calls
  of \<open>statSync\<close> and \<open>readdirSync\<close> and the questions. The calls of \<open>rmdir\<close>.
\<close>

fun inspection :: "event \<Rightarrow> bool" where
  "inspection (Stat d) = True"
| "inspection (Readdir d) = True"
| "inspection (Remove d) = True"
| "inspection (Question i b) = True"
| "inspection (Exec c) = False"
| "inspection (Err m) =
     (case m of
        MNotADirectory d \<Rightarrow> True | MNotExist d \<Rightarrow> True | MPermissionDenied d \<Rightarrow> True
      | MUnableToAccess d x \<Rightarrow> True | MNotEmpty d \<Rightarrow> True | MUseForceOrBrutal \<Rightarrow> True
      | MErrorDeleting d x \<Rightarrow> True | _ \<Rightarrow> False)"
| "inspection (Out m) =
     (case m of
        MReadError \<Rightarrow> True | MAboutToDelete d \<Rightarrow> True | MContains k n \<Rightarrow> True
      | MBrutalEnabled \<Rightarrow> True | MBlank \<Rightarrow> True | MDeleted d \<Rightarrow> True | _ \<Rightarrow> False)"

definition deferred :: "event \<Rightarrow> bool" where
  "deferred ev = (case ev of Stat d \<Rightarrow> False | Readdir d \<Rightarrow> False | Question i b \<Rightarrow> False | _ \<Rightarrow> True)"

definition isRemove :: "event \<Rightarrow> bool" where
  "isRemove ev = (case ev of Remove d \<Rightarrow> True | _ \<Rightarrow> False)"

text \<open>
  \<open>kernel j\<close> is the callback that the job \<open>j\<close> leads to once the jobs that only settle
  an intermediate promise have run. \<open>declined k\<close> holds throughout a run for a target
  number \<open>k\<close> whose question is answered with a line that is not affirmative: its promise
  is never fulfilled with \<open>true\<close>; as long as it is pending, the only job of its chain is
  the callback called with \<open>false\<close>; and once that callback is queued or the promise is
  fulfilled with \<open>false\<close>, the cancellation line has been written.
\<close>

fun kernel :: "job \<Rightarrow> job" where
  "kernel (Tick n j) = kernel j"
| "kernel j = j"

definition declined :: "nat \<Rightarrow> sched \<Rightarrow> bool" where
  "declined k s =
     (promises s k \<noteq> Fulfilled True
      \<and> (promises s k = Pending \<longrightarrow>
           (\<forall>j \<in> set (queue s). fateOf j = Carries k \<longrightarrow> (\<exists>d. kernel j = Confirmed k d False)))
      \<and> (promises s k = Fulfilled False
            \<or> (\<exists>j \<in> set (queue s). \<exists>d. kernel j = Confirmed k d False)
           \<longrightarrow> Out MCancelled \<in> set (trace (wld s))))"

text \<open>An environment whose standard input is at its end.\<close>

definition silentEnv :: env where
  "silentEnv =
     \<lparr>win32 = False, execSync = (\<lambda>n c. Inr []), rmdirError = (\<lambda>n d. None),
      rmdirEffect = (\<lambda>n d f. f(d := NoStat ENOENT)),
      answer = (\<lambda>i. ''y''), endOfInput = (\<lambda>i. True)\<rparr>"

text \<open>An \<open>lsof\<close> that lists one process and ends with status 1.\<close>

definition lsofWarnEnv :: env where
  "lsofWarnEnv =
     \<lparr>win32 = False,
      execSync = (\<lambda>n c. shellResult c (Failed (''node 12 me'' @ [CHR 0x0A]) ''Command failed'')),
      rmdirError = (\<lambda>n d. None),
      rmdirEffect = (\<lambda>n d f. f(d := NoStat ENOENT)),
      answer = (\<lambda>i. ''y''), endOfInput = (\<lambda>i. False)\<rparr>"

text \<open>
  An empty directory seen through the two spellings \<open>e\<close> and \<open>./e\<close> of its path, and an
  \<open>rmdir\<close> for it: removing it through one spelling removes it for both.
\<close>

definition aliasDirs :: world where
  "aliasDirs =
     \<lparr>fs = (\<lambda>p. NoStat ENOENT)(''e'' := Dir [], ''./e'' := Dir []), clock = 0, trace = []\<rparr>"

definition aliasEnv :: env where
  "aliasEnv =
     \<lparr>win32 = False, execSync = (\<lambda>n c. Inr []), rmdirError = (\<lambda>n d. None),
      rmdirEffect = (\<lambda>n d f. if d = ''e'' \<or> d = ''./e''
                              then f(''e'' := NoStat ENOENT, ''./e'' := NoStat ENOENT)
                              else f(d := NoStat ENOENT)),
      answer = (\<lambda>i. ''no''), endOfInput = (\<lambda>i. False)\<rparr>"

section \<open>Properties of the argument parser\<close>

lemma parseLoop_closed:
  "parseLoop args opts =
     (case find unknownOption args of
        Some a \<Rightarrow> Inl a
      | None \<Rightarrow> Inr \<lparr>force = force opts \<or> mentions args ''--force'' ''-f'',
                     yes = yes opts \<or> mentions args ''--yes'' ''-y'',
                     brutal = brutal opts \<or> mentions args ''--brutal'' ''-b'',
                     help' = help' opts \<or> mentions args ''--help'' ''-h'',
                     version' = version' opts \<or> mentions args ''--version'' ''-v'',
                     directories = directories opts @ filter (\<lambda>a. \<not> isFlag a) args\<rparr>)"
proof (induction args arbitrary: opts)
  case Nil
  show ?case by (simp add: mentions_def)
next
  case (Cons a args)
  show ?case
    by (auto simp: Cons.IH unknownOption_def isFlag_def mentions_def startsWith_def
          split: option.splits)
qed


lemma find_unknown_drop:
  "isFlag f \<Longrightarrow> find unknownOption (xs @ f # ys) = find unknownOption (xs @ ys)"
  by (induction xs) (auto simp: unknownOption_def)

lemma find_unknown_move:
  "isFlag f \<Longrightarrow> find unknownOption (xs @ f # ys @ zs) = find unknownOption (xs @ ys @ f # zs)"
  using find_unknown_drop [of f xs "ys @ zs"] find_unknown_drop [of f "xs @ ys" zs] by simp

text \<open>
  Claim C10. The options that \<open>parseArgs\<close> returns do not depend on where a recognised
  flag stands: moving a flag over any stretch of tokens, in either direction, and
  repeating it, change nothing. When parsing succeeds the targets are the tokens that
  are not flags, in the order given, and each option is set exactly when one of its two
  spellings occurs somewhere in the list, before or after the targets. The whole list is
  parsed before the main script looks at any target.
\<close>

theorem parseArgs_flag_position:
  "(isFlag f \<longrightarrow>
      parseArgs (xs @ f # ys @ zs) = parseArgs (xs @ ys @ f # zs)
      \<and> parseArgs (xs @ f # ys @ f # zs) = parseArgs (xs @ f # ys @ zs))
   \<and> (\<forall>opts. parseArgs args = Inr opts \<longrightarrow>
         directories opts = filter (\<lambda>a. \<not> isFlag a) args
         \<and> force opts = mentions args ''--force'' ''-f''
         \<and> brutal opts = mentions args ''--brutal'' ''-b''
         \<and> yes opts = mentions args ''--yes'' ''-y''
         \<and> help' opts = mentions args ''--help'' ''-h''
         \<and> version' opts = mentions args ''--version'' ''-v'')"
proof (intro impI conjI allI)
  assume f: "isFlag f"
  have u: "find unknownOption (xs @ f # ys @ zs) = find unknownOption (xs @ ys @ f # zs)"
    by (rule find_unknown_move [OF f])
  show "parseArgs (xs @ f # ys @ zs) = parseArgs (xs @ ys @ f # zs)"
    unfolding parseArgs_def parseLoop_closed u using f
    by (auto simp: mentions_def split: option.splits)
  have v: "find unknownOption (xs @ f # ys @ f # zs) = find unknownOption (xs @ f # ys @ zs)"
    using find_unknown_drop [OF f, of "xs @ f # ys" zs] by simp
  show "parseArgs (xs @ f # ys @ f # zs) = parseArgs (xs @ f # ys @ zs)"
    unfolding parseArgs_def parseLoop_closed v using f
    by (auto simp: mentions_def split: option.splits)
next
  fix opts
  assume p: "parseArgs args = Inr opts"
  then have o: "opts = \<lparr>force = mentions args ''--force'' ''-f'',
                     yes = mentions args ''--yes'' ''-y'',
                     brutal = mentions args ''--brutal'' ''-b'',
                     help' = mentions args ''--help'' ''-h'',
                     version' = mentions args ''--version'' ''-v'',
                     directories = filter (\<lambda>a. \<not> isFlag a) args\<rparr>"
    unfolding parseArgs_def parseLoop_closed
    by (auto simp: defaultOptions_def split: option.splits)
  show "directories opts = filter (\<lambda>a. \<not> isFlag a) args" by (simp add: o)
  show "force opts = mentions args ''--force'' ''-f''" by (simp add: o)
  show "brutal opts = mentions args ''--brutal'' ''-b''" by (simp add: o)
  show "yes opts = mentions args ''--yes'' ''-y''" by (simp add: o)
  show "help' opts = mentions args ''--help'' ''-h''" by (simp add: o)
  show "version' opts = mentions args ''--version'' ''-v''" by (simp add: o)
qed

theorem parseArgs_flag_position_witness:
  "isFlag ''-f''
   \<and> parseArgs ([''a''] @ ''-f'' # [''b'', ''-y''] @ [''c'']) = parseArgs ([''a''] @ [''b'', ''-y''] @ ''-f'' # [''c''])
   \<and> parseArgs ([''a''] @ ''-f'' # [''b'', ''-y''] @ ''-f'' # [''c'']) = parseArgs ([''a''] @ ''-f'' # [''b'', ''-y''] @ [''c''])
   \<and> parseArgs [''a'', ''b'', ''-y'', ''-f'', ''c'']
       = Inr \<lparr>force = True, yes = True, brutal = False, help' = False, version' = False,
              directories = [''a'', ''b'', ''c'']\<rparr>"
  using parseArgs_flag_position [of "''-f''" "[''a'']" "[''b'', ''-y'']" "[''c'']" "[]"]
  by (simp add: isFlag_def parseArgs_def defaultOptions_def startsWith_def)

section \<open>Properties of the directory inspector\<close>

lemma walk_totals:
  "totalSize (walkDir n t) = totalSize t + fst (computeSize_spec (reached n))
   \<and> totalFiles (walkDir n t) = totalFiles t + snd (computeSize_spec (reached n))"
  "totalSize (fst (walkEntries es t)) = totalSize t + fst (specSizeEntries (reachedEntries es))
   \<and> totalFiles (fst (walkEntries es t)) = totalFiles t + snd (specSizeEntries (reachedEntries es))"
proof (induction n t and es t rule: walkDir_walkEntries.induct)
  case (1 es t)
  then show ?case by (auto simp: computeSize_spec_def split: prod.splits bool.splits)
next
  case (6 fe es t)
  then show ?case
    by (cases "snd fe") (simp_all add: computeSize_spec_def)
qed (simp_all add: computeSize_spec_def)

lemma statable_reached:
  "statable n \<Longrightarrow> reached n = n"
  "statableEntries es \<Longrightarrow> reachedEntries es = es"
  by (induction n and es rule: reached_reachedEntries.induct) (auto split: node.splits)


lemma getDirectorySize_fs: "fs (snd (getDirectorySize d w)) = fs w"
  by (simp add: getDirectorySize_def emits_def Let_def)

text \<open>
  Claim C9, as amended. \<open>getDirectorySize\<close> never throws and changes nothing in the file
  system. It returns the total length and the number of the entries that are not
  directories, over the part of the tree that the walk reaches: a directory whose
  listing throws adds nothing, its siblings are still counted; an entry whose
  \<open>statSync\<close> throws ends the walk of the directory that holds it, so that this entry
  and the entries listed after it are left out, while what was counted before is kept.
  When \<open>statSync\<close> succeeds everywhere, the result is the one the specification words.
  \<open>isDirectoryEmpty\<close> is true exactly for a directory whose listing succeeds and is
  empty; a listing that throws gives false.
\<close>

theorem getDirectorySize_walk:
  "fst (getDirectorySize d w) = computeSize_spec (reached (fs w d))
   \<and> (statable (fs w d) \<longrightarrow> fst (getDirectorySize d w) = computeSize_spec (fs w d))
   \<and> reachedEntries (es1 @ (f, NoStat err) # es2) = reachedEntries es1
   \<and> fs (snd (getDirectorySize d w)) = fs w
   \<and> fst (isDirectoryEmpty d w) = (\<exists>es. fs w d = Dir es \<and> length es = 0)"
proof (intro conjI impI)
  show a: "fst (getDirectorySize d w) = computeSize_spec (reached (fs w d))"
    using walk_totals(1) [of "fs w d" "\<lparr>totalSize = 0, totalFiles = 0, errorLines = 0\<rparr>"]
    by (simp add: getDirectorySize_def Let_def prod_eq_iff)
  show "fst (getDirectorySize d w) = computeSize_spec (fs w d)" if "statable (fs w d)"
    using a statable_reached(1) [OF that] by simp
  show "reachedEntries (es1 @ (f, NoStat err) # es2) = reachedEntries es1"
    by (induction es1) (auto split: node.splits)
  show "fs (snd (getDirectorySize d w)) = fs w" by (rule getDirectorySize_fs)
  show "fst (isDirectoryEmpty d w) = (\<exists>es. fs w d = Dir es \<and> length es = 0)"
    by (simp add: isDirectoryEmpty_def Let_def split: node.splits)
qed

theorem getDirectorySize_walk_witness:
  "statable (Dir [(''a'', File 3), (''s'', Dir [(''b'', File 4), (''c'', Sealed)])])
   \<and> fst (getDirectorySize ''d''
        \<lparr>fs = (\<lambda>p. Dir [(''a'', File 3), (''s'', Dir [(''b'', File 4), (''c'', Sealed)])]),
         clock = 0, trace = []\<rparr>) = (7, 2)"
  using getDirectorySize_walk [of "''d''"
      "\<lparr>fs = (\<lambda>p. Dir [(''a'', File 3), (''s'', Dir [(''b'', File 4), (''c'', Sealed)])]),
         clock = 0, trace = []\<rparr>" "[]" "''x''" ENOENT "[]"]
  by (simp add: computeSize_spec_def)

text \<open>
  Claim C9 as stated fails: in a directory that lists a dangling link \<open>a\<close> before a file
  \<open>b\<close> of 10 bytes, the walk stops at \<open>a\<close> and reports nothing, where the specification
  omits the contribution of \<open>a\<close> alone and counts \<open>b\<close>.
\<close>

theorem getDirectorySize_counterexample:
  "fst (getDirectorySize ''d'' brokenWorld) = (0, 0)
   \<and> computeSize_spec (fs brokenWorld ''d'') = (10, 1)"
  by (simp add: getDirectorySize_def brokenWorld_def computeSize_spec_def Let_def)

section \<open>Properties of the confirmation gate\<close>

lemma lowerChar_eq:
  "lowerChar c = x \<longleftrightarrow>
     (c, x) \<in> set (zip ''ABCDEFGHIJKLMNOPQRSTUVWXYZ'' ''abcdefghijklmnopqrstuvwxyz'')
     \<or> (c \<notin> set ''ABCDEFGHIJKLMNOPQRSTUVWXYZ'' \<and> c = x)"
proof -
  let ?T = "zip ''ABCDEFGHIJKLMNOPQRSTUVWXYZ'' ''abcdefghijklmnopqrstuvwxyz''"
  have d: "distinct (map fst ?T)" by simp
  have k: "fst ` set ?T = set ''ABCDEFGHIJKLMNOPQRSTUVWXYZ''" by simp
  show ?thesis
  proof (cases "map_of ?T c")
    case None
    then have "c \<notin> fst ` set ?T" using map_of_eq_None_iff [of ?T c] by blast
    then have n: "c \<notin> set ''ABCDEFGHIJKLMNOPQRSTUVWXYZ''" by (simp only: k not_False_eq_True)
    then have "\<And>y. (c, y) \<notin> set ?T" by (meson set_zip_leftD)
    with None n show ?thesis by (simp only: lowerChar_def option.case) blast
  next
    case (Some l)
    then have m: "(c, l) \<in> set ?T" by (rule map_of_SomeD)
    then have "c \<in> set ''ABCDEFGHIJKLMNOPQRSTUVWXYZ''" by (rule set_zip_leftD)
    moreover have "(c, x) \<in> set ?T \<longleftrightarrow> l = x"
      using Some map_of_eq_Some_iff [OF d, of c x] by auto
    ultimately show ?thesis using Some by (simp only: lowerChar_def option.case) blast
  qed
qed

lemma lowerChar_y: "lowerChar c = CHR ''y'' \<longleftrightarrow> c = CHR ''y'' \<or> c = CHR ''Y''"
  unfolding lowerChar_eq by auto

lemma lowerChar_e: "lowerChar c = CHR ''e'' \<longleftrightarrow> c = CHR ''e'' \<or> c = CHR ''E''"
  unfolding lowerChar_eq by auto

lemma lowerChar_s: "lowerChar c = CHR ''s'' \<longleftrightarrow> c = CHR ''s'' \<or> c = CHR ''S''"
  unfolding lowerChar_eq by auto

lemma map_eq_single: "map f a = [x] \<longleftrightarrow> (\<exists>c. a = [c] \<and> f c = x)"
  by (cases a) auto

lemma map_eq_triple:
  "map f a = [x, y, z] \<longleftrightarrow> (\<exists>c1 c2 c3. a = [c1, c2, c3] \<and> f c1 = x \<and> f c2 = y \<and> f c3 = z)"
proof (cases a)
  case Nil
  then show ?thesis by simp
next
  case (Cons c1 r1)
  show ?thesis
  proof (cases r1)
    case Nil
    with Cons show ?thesis by simp
  next
    case (Cons c2 r2)
    with \<open>a = c1 # r1\<close> show ?thesis by (cases r2) (auto simp: map_eq_single)
  qed
qed

lemma toLowerCase_y: "toLowerCase a = ''y'' \<longleftrightarrow> a \<in> {''y'', ''Y''}"
  unfolding toLowerCase_def map_eq_single lowerChar_y by auto

lemma toLowerCase_yes:
  "toLowerCase a = ''yes'' \<longleftrightarrow>
     a \<in> {''yes'', ''yeS'', ''yEs'', ''yES'', ''Yes'', ''YeS'', ''YEs'', ''YES''}"
  unfolding toLowerCase_def map_eq_triple lowerChar_y lowerChar_e lowerChar_s by auto



lemma affirmative_iff:
  "affirmative a \<longleftrightarrow>
     a \<in> {''y'', ''Y'', ''yes'', ''yeS'', ''yEs'', ''yES'', ''Yes'', ''YeS'', ''YEs'', ''YES''}"
  unfolding affirmative_def toLowerCase_y toLowerCase_yes by blast

lemma getDirectorySize_trace:
  "\<exists>k. trace (snd (getDirectorySize d w)) = trace w @ replicate k (Out MReadError)"
  by (auto simp: getDirectorySize_def emits_def Let_def)

text \<open>
  Claim C7. With \<open>yes\<close> set, \<open>confirmDeletion\<close> resolves to true at once: nothing is
  computed, shown or asked (the world is unchanged). Otherwise it shows the path and the
  size report, adds the note on running processes exactly in brutal mode, asks one
  question, and resolves to true exactly when the answer is \<open>y\<close> or \<open>yes\<close> in any mix
  of upper and lower case; on every other answer, the empty one included, it writes the
  cancellation line and resolves to false.
\<close>

theorem confirm_gate:
  "(yes opts \<longrightarrow> confirm e i d opts w = (True, w))
   \<and> (\<not> yes opts \<longrightarrow>
        fst (confirmDeletion i d opts w) = Asked
        \<and> snd (confirmDeletion i d opts w) =
            emits ([Out (MAboutToDelete d),
                    Out (MContains (snd (fst (getDirectorySize d w))) (fst (fst (getDirectorySize d w))))]
                   @ (if brutal opts then [Out MBrutalEnabled, Out MBlank, Question i True]
                      else [Out MBlank, Question i False]))
              (snd (getDirectorySize d w))
        \<and> filter isQuestion (trace (snd (confirmDeletion i d opts w)))
            = filter isQuestion (trace w) @ [Question i (brutal opts)]
        \<and> confirm e i d opts w =
            (affirmative (answer e i),
             if affirmative (answer e i) then snd (confirmDeletion i d opts w)
             else emit (Out MCancelled) (snd (confirmDeletion i d opts w))))
   \<and> (affirmative a \<longleftrightarrow>
        a \<in> {''y'', ''Y'', ''yes'', ''yeS'', ''yEs'', ''yES'', ''Yes'', ''YeS'', ''YEs'', ''YES''})"
proof (intro conjI impI)
  show "confirm e i d opts w = (True, w)" if "yes opts"
    using that by (simp add: confirm_def confirmDeletion_def)
next
  assume n: "\<not> yes opts"
  show "fst (confirmDeletion i d opts w) = Asked"
    using n by (simp add: confirmDeletion_def Let_def split: prod.splits)
  show s: "snd (confirmDeletion i d opts w) =
            emits ([Out (MAboutToDelete d),
                    Out (MContains (snd (fst (getDirectorySize d w))) (fst (fst (getDirectorySize d w))))]
                   @ (if brutal opts then [Out MBrutalEnabled, Out MBlank, Question i True]
                      else [Out MBlank, Question i False]))
              (snd (getDirectorySize d w))"
    using n by (simp add: confirmDeletion_def Let_def emits_def split: prod.splits)
  obtain k where k: "trace (snd (getDirectorySize d w)) = trace w @ replicate k (Out MReadError)"
    using getDirectorySize_trace by blast
  show "filter isQuestion (trace (snd (confirmDeletion i d opts w)))
            = filter isQuestion (trace w) @ [Question i (brutal opts)]"
    unfolding s by (simp add: emits_def k isQuestion_def)
  show "confirm e i d opts w =
            (affirmative (answer e i),
             if affirmative (answer e i) then snd (confirmDeletion i d opts w)
             else emit (Out MCancelled) (snd (confirmDeletion i d opts w)))"
    using n by (simp add: confirm_def confirmDeletion_def answered_def Let_def split: prod.splits)
next
  show "affirmative a \<longleftrightarrow>
        a \<in> {''y'', ''Y'', ''yes'', ''yeS'', ''yEs'', ''yES'', ''Yes'', ''YeS'', ''YEs'', ''YES''}"
    by (rule affirmative_iff)
qed

theorem confirm_gate_witness:
  "yes (askingOptions\<lparr>yes := True\<rparr>)
   \<and> confirm decliningEnv 0 ''d'' (askingOptions\<lparr>yes := True\<rparr>) brokenWorld = (True, brokenWorld)
   \<and> \<not> yes askingOptions
   \<and> fst (confirm decliningEnv 0 ''d'' askingOptions brokenWorld) = False
   \<and> trace (snd (confirm decliningEnv 0 ''d'' askingOptions brokenWorld))
       = [Out MReadError, Out (MAboutToDelete ''d''), Out (MContains 0 0), Out MBrutalEnabled,
          Out MBlank, Question 0 True, Out MCancelled]
   \<and> affirmative ''yEs''"
  using confirm_gate [of "askingOptions\<lparr>yes := True\<rparr>" decliningEnv 0 "''d''" brokenWorld "''yEs''"]
    confirm_gate [of askingOptions decliningEnv 0 "''d''" brokenWorld "''yEs''"]
  by (simp add: askingOptions_def defaultOptions_def decliningEnv_def brokenWorld_def
        confirm_def confirmDeletion_def answered_def affirmative_def toLowerCase_def
        lowerChar_def getDirectorySize_def emits_def emit_def Let_def)

section \<open>Properties of the process scanner and terminator\<close>

lemma killEach_closed:
  "killEach e ps acc w =
     ((fst acc @ map snd (filter (succeeds e) (enumerate (clock w) ps)),
       snd acc @ map (failure e) (filter (\<lambda>kp. \<not> succeeds e kp) (enumerate (clock w) ps))),
      w\<lparr>clock := clock w + length ps, trace := trace w @ map (\<lambda>p. Exec (killCommand e p)) ps\<rparr>)"
proof (induction ps arbitrary: acc w)
  case Nil
  show ?case by simp
next
  case (Cons p ps)
  show ?case
    by (cases "execSync e (clock w) (killCommand e p)")
       (simp_all add: Cons.IH exec_def emit_def succeeds_def failure_def)
qed

lemma killProcesses_closed:
  "killProcesses e ps w =
     (let killed = map snd (filter (succeeds e) (enumerate (clock w) ps));
          failed = map (failure e) (filter (\<lambda>kp. \<not> succeeds e kp) (enumerate (clock w) ps))
      in (if failed = [] then Inr killed else Inl (killed, failed),
          w\<lparr>clock := clock w + length ps, trace := trace w @ map (\<lambda>p. Exec (killCommand e p)) ps\<rparr>))"
  by (simp add: killProcesses_def killEach_closed Let_def)

lemma uniqueProcesses_pids:
  "set (map pid (uniqueProcesses seen ps)) = set (map pid ps) - set seen
   \<and> distinct (map pid (uniqueProcesses seen ps))"
  by (induction seen ps rule: uniqueProcesses.induct) auto

lemma uniqueProcesses_find:
  "x \<notin> set seen \<Longrightarrow>
     find (\<lambda>p. pid p = x) (uniqueProcesses seen ps) = find (\<lambda>p. pid p = x) ps"
  by (induction seen ps rule: uniqueProcesses.induct) auto

lemma isDigit_isDigitOf: "isDigit c \<Longrightarrow> isDigitOf 10 c"
  unfolding isDigit_def isDigitOf_def digitValue_def
  by (simp only: set_simps insert_iff empty_iff) (elim disjE FalseE; simp)

lemma isDigit_plain:
  "isDigit c \<Longrightarrow> \<not> isSpace c \<and> c \<noteq> CHR ''-'' \<and> c \<noteq> CHR ''+'' \<and> c \<noteq> CHR ''x'' \<and> c \<noteq> CHR ''X''"
  unfolding isDigit_def isSpace_def
  by (simp only: set_simps insert_iff empty_iff) (elim disjE FalseE; simp)

lemma parseInt_digits:
  assumes "ds \<noteq> []" "\<forall>c \<in> set ds. isDigit c"
  shows "parseInt ds \<noteq> None"
proof -
  obtain c cs where ds: "ds = c # cs" using assms(1) by (cases ds) auto
  have c: "isDigit c" using assms(2) ds by simp
  note p = isDigit_plain [OF c]
  have dw: "dropWhile isSpace ds = ds" using p ds by simp
  have sg: "\<not> startsWith ds ''-''" "\<not> startsWith ds ''+''"
    using p ds by (simp_all add: startsWith_def)
  have hx: "\<not> startsWith ds ''0x''" "\<not> startsWith ds ''0X''"
  proof -
    show "\<not> startsWith ds ''0x''"
    proof (cases cs)
      case Nil
      then show ?thesis by (simp add: startsWith_def ds)
    next
      case (Cons c2 cs2)
      then have "isDigit c2" using assms(2) ds by simp
      then have "c2 \<noteq> CHR ''x''" using isDigit_plain by blast
      then show ?thesis by (simp add: startsWith_def ds Cons)
    qed
    show "\<not> startsWith ds ''0X''"
    proof (cases cs)
      case Nil
      then show ?thesis by (simp add: startsWith_def ds)
    next
      case (Cons c2 cs2)
      then have "isDigit c2" using assms(2) ds by simp
      then have "c2 \<noteq> CHR ''X''" using isDigit_plain by blast
      then show ?thesis by (simp add: startsWith_def ds Cons)
    qed
  qed
  have tw: "takeWhile (isDigitOf 10) ds \<noteq> []"
    using isDigit_isDigitOf [OF c] ds by simp
  show ?thesis
    unfolding parseInt_def Let_def dw using sg hx tw by simp
qed

lemma matchPid_digits:
  "matchPid line = Some ds \<Longrightarrow> ds \<noteq> [] \<and> (\<forall>c \<in> set ds. isDigit c)"
proof (induction line)
  case Nil
  then show ?case by simp
next
  case (Cons x xs)
  let ?ds = "takeWhile isDigit (dropWhile isSpace (drop 4 (x # xs)))"
  show ?case
  proof (cases "startsWith (x # xs) ''pid:'' \<and> ?ds \<noteq> []")
    case True
    then have "ds = ?ds" using Cons.prems by (auto simp: Let_def split: if_splits)
    then show ?thesis using True by (auto dest: set_takeWhileD)
  next
    case False
    then have "matchPid xs = Some ds" using Cons.prems by (auto simp: Let_def split: if_splits)
    then show ?thesis by (rule Cons.IH)
  qed
qed


lemma handleLine_pid: "handleLine line = Some p \<Longrightarrow> pid p \<noteq> None"
proof -
  assume h: "handleLine line = Some p"
  then obtain ds where m: "matchPid line = Some ds" and p: "p = \<lparr>pid = parseInt ds, name = ''Unknown''\<rparr>"
    by (auto simp: handleLine_def split: if_splits option.splits)
  from matchPid_digits [OF m] parseInt_digits have "parseInt ds \<noteq> None" by blast
  with p show ?thesis by simp
qed

lemma lsofLine_pid: "lsofLine line = Some p \<Longrightarrow> pid p \<noteq> None"
  by (auto simp: lsofLine_def Let_def split: if_splits)

lemma map_filter_pids:
  "(\<And>line p. f line = Some p \<Longrightarrow> pid p \<noteq> None) \<Longrightarrow> \<forall>p \<in> set (List.map_filter f ls). pid p \<noteq> None"
  by (auto simp: List.map_filter_def)

lemma uniqueProcesses_subset: "set (uniqueProcesses seen ps) \<subseteq> set ps"
  by (induction seen ps rule: uniqueProcesses.induct) auto


lemma startsWith_append: "startsWith (t @ ys) t"
  by (simp add: startsWith_def)

lemma includesStr_append: "includesStr (xs @ t @ ys) t"
proof (induction xs)
  case Nil
  show ?case using startsWith_append [of t ys] by (cases "t @ ys") auto
next
  case (Cons x xs)
  then show ?case by simp
qed

lemma includesStr_notFound: "includesStr (out @ notFoundLine) ''handle.exe not found''"
  using includesStr_append [of "out @ [CHR 0x22]" "''handle.exe not found''" "[CHR 0x22, CHR 0x0D, CHR 0x0A]"]
  by (simp add: notFoundLine_def)

text \<open>
  Claim C8, as amended. \<open>getProcessesUsingDirectory\<close> never propagates an error. Its
  result holds each pid once: of the entries collected for a pid the first is kept. A
  line of \<open>lsof\<close> with fewer than two fields or without a number in the second field is
  ignored, and so is a line of \<open>handle.exe\<close> without a pid. A call of \<open>execSync\<close> that throws
  gives the empty result for its attempt. On Windows, a \<open>handle.exe\<close> that is missing or
  ends with a failure does not make the call throw: the marker is echoed, the result is
  empty and \<open>tasklist\<close> is not run; a \<open>handle.exe\<close> that runs into the timeout makes the
  call throw, the scan then runs \<open>tasklist\<close>, and the result is what \<open>tasklist\<close> finds, or
  empty when \<open>tasklist\<close> finds nothing, fails or runs into the timeout. On a POSIX
  platform the status of \<open>lsof\<close> is ignored: what it has written is read, whether it
  ended with status 0 or not, a missing \<open>lsof\<close> has written nothing, and a timeout gives
  the empty result.
\<close>

theorem getProcessesUsingDirectory_set:
  "distinct (map pid (fst (getProcessesUsingDirectory e d w)))
   \<and> (\<forall>x. find (\<lambda>p. pid p = x) (fst (getProcessesUsingDirectory e d w))
            = find (\<lambda>p. pid p = x) (fst (collectProcesses e d w)))
   \<and> (\<not> win32 e \<longrightarrow>
        (\<forall>p \<in> set (fst (getProcessesUsingDirectory e d w)). pid p \<noteq> None)
        \<and> (\<forall>out. execSync e (clock w) (Lsof d) = Inr out \<longrightarrow>
              fst (collectProcesses e d w)
                = (if nonBlank out then List.map_filter lsofLine (splitOn (CHR 0x0A) out) else []))
        \<and> (\<forall>err. execSync e (clock w) (Lsof d) = Inl err \<longrightarrow>
              fst (getProcessesUsingDirectory e d w) = []))
   \<and> (win32 e \<longrightarrow>
        (\<forall>out. execSync e (clock w) (HandleExe d) = Inr out \<longrightarrow>
              (\<forall>p \<in> set (fst (getProcessesUsingDirectory e d w)). pid p \<noteq> None)
              \<and> fst (collectProcesses e d w)
                  = (if \<not> includesStr out ''handle.exe not found''
                     then List.map_filter handleLine (splitOn (CHR 0x0A) out) else []))
        \<and> (\<forall>err out. execSync e (clock w) (HandleExe d) = Inl err
              \<longrightarrow> execSync e (Suc (clock w)) (Tasklist d) = Inr out
              \<longrightarrow> fst (collectProcesses e d w)
                    = (if nonBlank out then List.map_filter tasklistLine (splitOn (CHR 0x0A) out) else []))
        \<and> (\<forall>err err2. execSync e (clock w) (HandleExe d) = Inl err
              \<longrightarrow> execSync e (Suc (clock w)) (Tasklist d) = Inl err2
              \<longrightarrow> fst (getProcessesUsingDirectory e d w) = []))
   \<and> (lsofLine line = None \<longleftrightarrow>
        length (splitSpaces line) < 2 \<or> parseInt (splitSpaces line ! 1) = None)
   \<and> (handleLine line = None \<longleftrightarrow> matchPid line = None)
   \<and> ((win32 e \<longrightarrow>
         (\<forall>out msg. execSync e (clock w) (HandleExe d) = shellResult (HandleExe d) (Failed out msg)
             \<longrightarrow> getProcessesUsingDirectory e d w
                   = ([], w\<lparr>clock := Suc (clock w), trace := trace w @ [Exec (HandleExe d)]\<rparr>))
         \<and> (\<forall>msg r. execSync e (clock w) (HandleExe d) = shellResult (HandleExe d) (TimedOut msg)
               \<longrightarrow> execSync e (Suc (clock w)) (Tasklist d) = shellResult (Tasklist d) r
               \<longrightarrow> fst (collectProcesses e d w)
                     = (case r of
                          Done out \<Rightarrow> if nonBlank out
                                      then List.map_filter tasklistLine (splitOn (CHR 0x0A) out) else []
                        | Failed out msg2 \<Rightarrow> []
                        | TimedOut msg2 \<Rightarrow> [])))
    \<and> (\<not> win32 e \<longrightarrow>
         (\<forall>r. execSync e (clock w) (Lsof d) = shellResult (Lsof d) r
             \<longrightarrow> fst (collectProcesses e d w)
                   = (case r of
                        Done out \<Rightarrow> if nonBlank out
                                    then List.map_filter lsofLine (splitOn (CHR 0x0A) out) else []
                      | Failed out msg \<Rightarrow> if nonBlank out
                                    then List.map_filter lsofLine (splitOn (CHR 0x0A) out) else []
                      | TimedOut msg \<Rightarrow> []))))"
proof -
  have u: "fst (getProcessesUsingDirectory e d w) = uniqueProcesses [] (fst (collectProcesses e d w))"
    by (simp add: getProcessesUsingDirectory_def split: prod.splits)
  have sub: "set (fst (getProcessesUsingDirectory e d w)) \<subseteq> set (fst (collectProcesses e d w))"
    unfolding u by (rule uniqueProcesses_subset)
  have c1: "distinct (map pid (fst (getProcessesUsingDirectory e d w)))"
    unfolding u using uniqueProcesses_pids by blast
  have c2: "\<forall>x. find (\<lambda>p. pid p = x) (fst (getProcessesUsingDirectory e d w))
            = find (\<lambda>p. pid p = x) (fst (collectProcesses e d w))"
    unfolding u by (simp add: uniqueProcesses_find)
  have lsofs: "\<not> win32 e \<Longrightarrow> \<forall>p \<in> set (fst (collectProcesses e d w)). pid p \<noteq> None"
    using map_filter_pids [of lsofLine, OF lsofLine_pid]
    by (auto simp: collectProcesses_def exec_def split: sum.splits)
  have c3: "\<not> win32 e \<longrightarrow>
        (\<forall>p \<in> set (fst (getProcessesUsingDirectory e d w)). pid p \<noteq> None)
        \<and> (\<forall>out. execSync e (clock w) (Lsof d) = Inr out \<longrightarrow>
              fst (collectProcesses e d w)
                = (if nonBlank out then List.map_filter lsofLine (splitOn (CHR 0x0A) out) else []))
        \<and> (\<forall>err. execSync e (clock w) (Lsof d) = Inl err \<longrightarrow>
              fst (getProcessesUsingDirectory e d w) = [])"
    using lsofs sub unfolding u
    by (auto simp: collectProcesses_def exec_def)
  have handles: "\<And>out. win32 e \<Longrightarrow> execSync e (clock w) (HandleExe d) = Inr out
      \<Longrightarrow> \<forall>p \<in> set (fst (collectProcesses e d w)). pid p \<noteq> None"
    using map_filter_pids [of handleLine, OF handleLine_pid]
    by (auto simp: collectProcesses_def exec_def)
  have c4: "win32 e \<longrightarrow>
        (\<forall>out. execSync e (clock w) (HandleExe d) = Inr out \<longrightarrow>
              (\<forall>p \<in> set (fst (getProcessesUsingDirectory e d w)). pid p \<noteq> None)
              \<and> fst (collectProcesses e d w)
                  = (if \<not> includesStr out ''handle.exe not found''
                     then List.map_filter handleLine (splitOn (CHR 0x0A) out) else []))
        \<and> (\<forall>err out. execSync e (clock w) (HandleExe d) = Inl err
              \<longrightarrow> execSync e (Suc (clock w)) (Tasklist d) = Inr out
              \<longrightarrow> fst (collectProcesses e d w)
                    = (if nonBlank out then List.map_filter tasklistLine (splitOn (CHR 0x0A) out) else []))
        \<and> (\<forall>err err2. execSync e (clock w) (HandleExe d) = Inl err
              \<longrightarrow> execSync e (Suc (clock w)) (Tasklist d) = Inl err2
              \<longrightarrow> fst (getProcessesUsingDirectory e d w) = [])"
    using handles sub unfolding u
    by (auto simp: collectProcesses_def exec_def emit_def)
  have c5: "lsofLine line = None \<longleftrightarrow>
        length (splitSpaces line) < 2 \<or> parseInt (splitSpaces line ! 1) = None"
    by (auto simp: lsofLine_def Let_def)
  have c6: "handleLine line = None \<longleftrightarrow> matchPid line = None"
  proof (cases "matchPid line")
    case None
    then show ?thesis by (simp add: handleLine_def)
  next
    case (Some ds)
    have "includesStr line ''pid:''" using Some
      by (induction line) (auto simp: Let_def split: if_splits)
    then show ?thesis using Some by (simp add: handleLine_def)
  qed
  have c7: "(win32 e \<longrightarrow>
        (\<forall>out msg. execSync e (clock w) (HandleExe d) = shellResult (HandleExe d) (Failed out msg)
            \<longrightarrow> getProcessesUsingDirectory e d w
                  = ([], w\<lparr>clock := Suc (clock w), trace := trace w @ [Exec (HandleExe d)]\<rparr>))
        \<and> (\<forall>msg r. execSync e (clock w) (HandleExe d) = shellResult (HandleExe d) (TimedOut msg)
              \<longrightarrow> execSync e (Suc (clock w)) (Tasklist d) = shellResult (Tasklist d) r
              \<longrightarrow> fst (collectProcesses e d w)
                    = (case r of
                         Done out \<Rightarrow> if nonBlank out
                                     then List.map_filter tasklistLine (splitOn (CHR 0x0A) out) else []
                       | Failed out msg2 \<Rightarrow> []
                       | TimedOut msg2 \<Rightarrow> [])))
   \<and> (\<not> win32 e \<longrightarrow>
        (\<forall>r. execSync e (clock w) (Lsof d) = shellResult (Lsof d) r
            \<longrightarrow> fst (collectProcesses e d w)
                  = (case r of
                       Done out \<Rightarrow> if nonBlank out
                                   then List.map_filter lsofLine (splitOn (CHR 0x0A) out) else []
                     | Failed out msg \<Rightarrow> if nonBlank out
                                   then List.map_filter lsofLine (splitOn (CHR 0x0A) out) else []
                     | TimedOut msg \<Rightarrow> [])))"
  proof (intro conjI impI allI)
    fix out msg
    assume "win32 e" "execSync e (clock w) (HandleExe d) = shellResult (HandleExe d) (Failed out msg)"
    then show "getProcessesUsingDirectory e d w
                 = ([], w\<lparr>clock := Suc (clock w), trace := trace w @ [Exec (HandleExe d)]\<rparr>)"
      by (simp add: getProcessesUsingDirectory_def collectProcesses_def exec_def emit_def
            includesStr_notFound)
  next
    fix msg r
    assume "win32 e" "execSync e (clock w) (HandleExe d) = shellResult (HandleExe d) (TimedOut msg)"
      "execSync e (Suc (clock w)) (Tasklist d) = shellResult (Tasklist d) r"
    then show "fst (collectProcesses e d w)
                      = (case r of
                           Done out \<Rightarrow> if nonBlank out
                                       then List.map_filter tasklistLine (splitOn (CHR 0x0A) out) else []
                         | Failed out msg2 \<Rightarrow> []
                         | TimedOut msg2 \<Rightarrow> [])"
      by (cases r) (simp_all add: collectProcesses_def exec_def emit_def)
  next
    fix r
    assume "\<not> win32 e" "execSync e (clock w) (Lsof d) = shellResult (Lsof d) r"
    then show "fst (collectProcesses e d w)
                    = (case r of
                         Done out \<Rightarrow> if nonBlank out
                                     then List.map_filter lsofLine (splitOn (CHR 0x0A) out) else []
                       | Failed out msg \<Rightarrow> if nonBlank out
                                     then List.map_filter lsofLine (splitOn (CHR 0x0A) out) else []
                       | TimedOut msg \<Rightarrow> [])"
      by (cases r) (simp_all add: collectProcesses_def exec_def emit_def)
  qed
  from c1 c2 c3 c4 c5 c6 c7 show ?thesis by blast
qed

theorem getProcessesUsingDirectory_set_witness:
  "\<not> win32 lsofEnv
   \<and> fst (getProcessesUsingDirectory lsofEnv ''d'' brokenWorld)
       = [\<lparr>pid = Some 12, name = ''node''\<rparr>, \<lparr>pid = Some 7, name = ''vim''\<rparr>]
   \<and> distinct (map pid (fst (getProcessesUsingDirectory lsofEnv ''d'' brokenWorld)))"
proof -
  have ev: "fst (getProcessesUsingDirectory lsofEnv ''d'' brokenWorld)
      = [\<lparr>pid = Some 12, name = ''node''\<rparr>, \<lparr>pid = Some 7, name = ''vim''\<rparr>]"
    by code_simp
  have w: "\<not> win32 lsofEnv" by (simp add: lsofEnv_def)
  show ?thesis
    using getProcessesUsingDirectory_set [of lsofEnv "''d''" brokenWorld "''x''"] ev w by simp
qed

text \<open>
  Claim C8 as stated fails: when \<open>handle.exe\<close> runs into its timeout, the scan falls back
  to \<open>tasklist\<close> and returns the process found there, not the empty result; and when
  \<open>lsof\<close> ends with status 1 after it has listed a process, the scan returns that process.
\<close>

theorem getProcessesUsingDirectory_counterexample:
  "win32 handleTimeoutEnv
   \<and> execSync handleTimeoutEnv (clock brokenWorld) (HandleExe ''d'')
       = shellResult (HandleExe ''d'') (TimedOut ''spawnSync ETIMEDOUT'')
   \<and> fst (getProcessesUsingDirectory handleTimeoutEnv ''d'' brokenWorld)
       = [\<lparr>pid = Some 1234, name = ''node.exe''\<rparr>]
   \<and> \<not> win32 lsofWarnEnv
   \<and> execSync lsofWarnEnv (clock brokenWorld) (Lsof ''d'')
       = shellResult (Lsof ''d'') (Failed (''node 12 me'' @ [CHR 0x0A]) ''Command failed'')
   \<and> fst (getProcessesUsingDirectory lsofWarnEnv ''d'' brokenWorld)
       = [\<lparr>pid = Some 12, name = ''node''\<rparr>]"
  by code_simp

text \<open>
  The \<open>tasklist\<close> branch does not test the pid as the \<open>lsof\<close> branch does: a line whose
  second field is not a number is kept, with the pid \<open>NaN\<close>.
\<close>

lemma tasklist_keeps_unparsed_line:
  "fst (getProcessesUsingDirectory headerEnv ''Session'' brokenWorld)
     = [\<lparr>pid = None, name = ''Image Name''\<rparr>]"
  by code_simp

section \<open>Properties of the job queue\<close>

lemma run_exited: "exited s = Some c \<Longrightarrow> run e opts s = s"
  by (subst run.simps) simp

lemma run_step:
  "exited s = None \<Longrightarrow> queue s = j # q \<Longrightarrow> run e opts s = run e opts (step e opts j (s\<lparr>queue := q\<rparr>))"
  by (subst run.simps) simp

lemma run_deliver:
  "exited s = None \<Longrightarrow> queue s = [] \<Longrightarrow> waiting s \<noteq> [] \<Longrightarrow>
     run e opts s = run e opts (deliver e (waiting s) (s\<lparr>waiting := []\<rparr>))"
  by (subst run.simps) simp

lemma run_idle: "exited s = None \<Longrightarrow> queue s = [] \<Longrightarrow> waiting s = [] \<Longrightarrow> run e opts s = s"
  by (subst run.simps) simp

lemma run_invariant:
  assumes "I s"
    and "\<And>s j q. I s \<Longrightarrow> exited s = None \<Longrightarrow> queue s = j # q \<Longrightarrow> I (step e opts j (s\<lparr>queue := q\<rparr>))"
    and "\<And>s. I s \<Longrightarrow> exited s = None \<Longrightarrow> queue s = [] \<Longrightarrow> waiting s \<noteq> [] \<Longrightarrow>
            I (deliver e (waiting s) (s\<lparr>waiting := []\<rparr>))"
  shows "I (run e opts s)"
  using assms
proof (induction e opts s rule: run.induct)
  case (1 e opts s)
  note init = "1.prems"(1) and st = "1.prems"(2) and dl = "1.prems"(3)
  show ?case
  proof (cases "exited s")
    case (Some c)
    then show ?thesis using init by (simp only: run_exited)
  next
    case None
    show ?thesis
    proof (cases "queue s")
      case (Cons j q)
      have "I (step e opts j (s\<lparr>queue := q\<rparr>))"
        by (rule st [OF init None Cons])
      then have "I (run e opts (step e opts j (s\<lparr>queue := q\<rparr>)))"
        using "1.IH"(2) [OF None Cons] st dl by blast
      then show ?thesis by (simp only: run_step [OF None Cons])
    next
      case Nil
      show ?thesis
      proof (cases "waiting s = []")
        case True
        then show ?thesis using init by (simp only: run_idle [OF None Nil])
      next
        case False
        have "I (deliver e (waiting s) (s\<lparr>waiting := []\<rparr>))"
          by (rule dl [OF init None Nil False])
        then have "I (run e opts (deliver e (waiting s) (s\<lparr>waiting := []\<rparr>)))"
          using "1.IH"(1) [OF None Nil False] st dl by blast
        then show ?thesis by (simp only: run_deliver [OF None Nil False])
      qed
    qed
  qed
qed

lemma run_final:
  "exited (run e opts s) \<noteq> None \<or> (queue (run e opts s) = [] \<and> waiting (run e opts s) = [])"
proof (induction e opts s rule: run.induct)
  case (1 e opts s)
  show ?case
  proof (cases "exited s")
    case (Some c)
    then show ?thesis by (simp add: run_exited)
  next
    case None
    show ?thesis
    proof (cases "queue s")
      case (Cons j q)
      then show ?thesis using "1.IH"(2) None by (simp add: run_step)
    next
      case Nil
      show ?thesis
      proof (cases "waiting s = []")
        case True
        then show ?thesis using None Nil by (simp add: run_idle)
      next
        case False
        then show ?thesis using "1.IH"(1) None Nil by (simp add: run_deliver)
      qed
    qed
  qed
qed

lemma fates_spawn:
  "fateOf j' = fateOf j \<Longrightarrow> queue s = j # q \<Longrightarrow>
     fates (enqueue [j'] (s\<lparr>queue := q, wld := w'\<rparr>)) = fates s"
  by (auto simp: fates_def enqueue_def)


lemma consistent_spawn:
  assumes "consistent e s" "queue s = j # q" "fateOf j' = fateOf j"
  shows "consistent e (enqueue [j'] (s\<lparr>queue := q, wld := w'\<rparr>))"
proof -
  let ?t = "enqueue [j'] (s\<lparr>queue := q, wld := w'\<rparr>)"
  have f: "fates ?t = fates s"
    by (rule fates_spawn [OF assms(3) assms(2)])
  have g: "total ?t = total s" "promises ?t = promises s" "vals ?t = vals s" "allst ?t = allst s"
    "waiting ?t = waiting s" "exited ?t = exited s"
    by (simp_all add: enqueue_def)
  show ?thesis
    using assms(1)
    unfolding consistent_def bounded_def recorded_def verdict_def alive_def f g .
qed

lemma consistent_settle_pending:
  assumes c: "consistent e s" and x: "exited s = None" and qs: "queue s = j # q"
    and f: "fateOf j = Carries i" and r: "r \<noteq> Pending"
    and js: "js = [] \<or> js = [Delete i d]"
    and p: "promises s i = Pending"
  shows "consistent e (enqueue js (settle i r (s\<lparr>queue := q, wld := w'\<rparr>)))"
proof -
  let ?t = "enqueue js (settle i r (s\<lparr>queue := q, wld := w'\<rparr>))"
  define F where "F = fateOf ` set q"
  have fs: "fates s = insert (Carries i) F"
    using qs f by (simp add: fates_def F_def)
  have ft: "fates ?t = insert (Reacts i) F \<or> fates ?t = insert (Carries i) (insert (Reacts i) F)"
    using p js by (auto simp: fates_def settle_def enqueue_def F_def)
  have g: "total ?t = total s" "promises ?t = (promises s)(i := r)" "vals ?t = vals s"
    "allst ?t = allst s" "waiting ?t = waiting s" "exited ?t = exited s"
    using p by (simp_all add: enqueue_def settle_def)
  from c have b: "bounded s" and rc: "recorded s" and v: "verdict s" and a: "alive e s"
    by (simp_all add: consistent_def)
  have "bounded ?t"
    using b r ft unfolding bounded_def g fs by auto
  moreover have "recorded ?t"
  proof -
    have "\<forall>m. allst s = AllRejected m \<longrightarrow> (\<exists>k < total s. k \<noteq> i \<and> promises s k = Rejected m)"
      using rc p unfolding recorded_def by (metis pstate.distinct(3))
    then show ?thesis
      using rc p r ft unfolding recorded_def g fs by (auto simp: fun_upd_def)
  qed
  moreover have "verdict ?t"
    using x unfolding verdict_def g by simp
  moreover have "alive e ?t"
    using a x p r ft unfolding alive_def g fs by (auto simp: fun_upd_def)
  ultimately show ?thesis by (simp add: consistent_def)
qed

lemma consistent_settle_settled:
  assumes c: "consistent e s" and x: "exited s = None" and qs: "queue s = j # q"
    and f: "fateOf j = Carries i"
    and js: "js = [] \<or> js = [Delete i d]"
    and p: "promises s i \<noteq> Pending"
  shows "consistent e (enqueue js (settle i r (s\<lparr>queue := q, wld := w'\<rparr>)))"
proof -
  let ?t = "enqueue js (settle i r (s\<lparr>queue := q, wld := w'\<rparr>))"
  define F where "F = fateOf ` set q"
  have fs: "fates s = insert (Carries i) F"
    using qs f by (simp add: fates_def F_def)
  have ft: "fates ?t = F \<or> fates ?t = insert (Carries i) F"
    using p js by (auto simp: fates_def settle_def enqueue_def F_def)
  have g: "total ?t = total s" "promises ?t = promises s" "vals ?t = vals s"
    "allst ?t = allst s" "waiting ?t = waiting s" "exited ?t = exited s"
    using p by (simp_all add: enqueue_def settle_def)
  from c have b: "bounded s" and rc: "recorded s" and v: "verdict s" and a: "alive e s"
    by (simp_all add: consistent_def)
  have "bounded ?t"
    using b ft unfolding bounded_def g fs by auto
  moreover have "recorded ?t"
    using rc ft unfolding recorded_def g fs by auto
  moreover have "verdict ?t"
    using x unfolding verdict_def g by simp
  moreover have "alive e ?t"
    using a x p ft unfolding alive_def g fs by auto
  ultimately show ?thesis by (simp add: consistent_def)
qed

lemma consistent_settle:
  assumes "consistent e s" "exited s = None" "queue s = j # q" "fateOf j = Carries i"
    "r \<noteq> Pending" "js = [] \<or> js = [Delete i d]"
  shows "consistent e (enqueue js (settle i r (s\<lparr>queue := q, wld := w'\<rparr>)))"
  using consistent_settle_pending [OF assms] consistent_settle_settled [OF assms(1-4) assms(6)]
  by blast

lemma allRecorded_iff: "allRecorded s \<longleftrightarrow> (\<forall>i < total s. vals s i \<noteq> None)"
  by (auto simp: allRecorded_def list_all_iff)

lemma consistent_settleJob_fulfilled:
  assumes c: "consistent e s" and x: "exited s = None" and qs: "queue s = Settle i # q"
    and p: "promises s i = Fulfilled b"
  shows "consistent e (settleJob i (s\<lparr>queue := q\<rparr>))"
proof -
  let ?t = "settleJob i (s\<lparr>queue := q\<rparr>)"
  define F where "F = fateOf ` set q"
  have fs: "fates s = insert (Reacts i) F"
    using qs by (simp add: fates_def F_def)
  from c have b: "bounded s" and rc: "recorded s" and v: "verdict s" and a: "alive e s"
    by (simp_all add: consistent_def)
  have i: "i < total s" using b unfolding bounded_def fs by simp
  show ?thesis
  proof (cases "(\<forall>k < total s. k \<noteq> i \<longrightarrow> vals s k \<noteq> None) \<and> allst s = AllPending")
    case True
    have g: "total ?t = total s" "promises ?t = promises s" "vals ?t = (vals s)(i := Some b)"
      "allst ?t = AllFulfilled" "waiting ?t = waiting s" "exited ?t = exited s"
      "fates ?t = insert Summary F"
      using p True by (auto simp: settleJob_def Let_def allRecorded_iff enqueue_def fates_def F_def)
    have "bounded ?t"
      using b unfolding bounded_def g fs by auto
    moreover have "recorded ?t"
      using rc p True unfolding recorded_def g fs by (auto simp: fun_upd_def)
    moreover have "verdict ?t"
      using x unfolding verdict_def g by simp
    moreover have "alive e ?t"
      using a x p True unfolding alive_def g fs by (auto simp: fun_upd_def)
    ultimately show ?thesis by (simp add: consistent_def)
  next
    case False
    have g: "total ?t = total s" "promises ?t = promises s" "vals ?t = (vals s)(i := Some b)"
      "allst ?t = allst s" "waiting ?t = waiting s" "exited ?t = exited s"
      "fates ?t = F"
      using p False by (auto simp: settleJob_def Let_def allRecorded_iff enqueue_def fates_def F_def)
    have "bounded ?t"
      using b unfolding bounded_def g fs by auto
    moreover have "recorded ?t"
      using rc p unfolding recorded_def g fs by (auto simp: fun_upd_def)
    moreover have "verdict ?t"
      using x unfolding verdict_def g by simp
    moreover have "alive e ?t"
      using a x p i False unfolding alive_def g fs by (auto simp: fun_upd_def)
    ultimately show ?thesis by (simp add: consistent_def)
  qed
qed

lemma consistent_settleJob_rejected:
  assumes c: "consistent e s" and x: "exited s = None" and qs: "queue s = Settle i # q"
    and p: "promises s i = Rejected m"
  shows "consistent e (settleJob i (s\<lparr>queue := q\<rparr>))"
proof -
  let ?t = "settleJob i (s\<lparr>queue := q\<rparr>)"
  define F where "F = fateOf ` set q"
  have fs: "fates s = insert (Reacts i) F"
    using qs by (simp add: fates_def F_def)
  from c have b: "bounded s" and rc: "recorded s" and v: "verdict s" and a: "alive e s"
    by (simp_all add: consistent_def)
  have i: "i < total s" using b unfolding bounded_def fs by simp
  show ?thesis
  proof (cases "allst s = AllPending")
    case True
    have g: "total ?t = total s" "promises ?t = promises s" "vals ?t = vals s"
      "allst ?t = AllRejected m" "waiting ?t = waiting s" "exited ?t = exited s"
      "fates ?t = insert (Failing m) F"
      using p True by (auto simp: settleJob_def enqueue_def fates_def F_def)
    have "bounded ?t"
      using b unfolding bounded_def g fs by auto
    moreover have "recorded ?t"
      using rc p i True unfolding recorded_def g fs by auto
    moreover have "verdict ?t"
      using x unfolding verdict_def g by simp
    moreover have "alive e ?t"
      using a x p True unfolding alive_def g fs by auto
    ultimately show ?thesis by (simp add: consistent_def)
  next
    case False
    have g: "total ?t = total s" "promises ?t = promises s" "vals ?t = vals s"
      "allst ?t = allst s" "waiting ?t = waiting s" "exited ?t = exited s"
      "fates ?t = F"
      using p False by (auto simp: settleJob_def enqueue_def fates_def F_def)
    have "bounded ?t"
      using b unfolding bounded_def g fs by auto
    moreover have "recorded ?t"
      using rc p unfolding recorded_def g fs by auto
    moreover have "verdict ?t"
      using x unfolding verdict_def g by simp
    moreover have "alive e ?t"
      using a x p i False unfolding alive_def g fs by auto
    ultimately show ?thesis by (simp add: consistent_def)
  qed
qed

lemma consistent_settleJob:
  assumes c: "consistent e s" and x: "exited s = None" and qs: "queue s = Settle i # q"
  shows "consistent e (settleJob i (s\<lparr>queue := q\<rparr>))"
proof (cases "promises s i")
  case Pending
  have "Reacts i \<in> fates s" using qs by (simp add: fates_def)
  then have False using c Pending by (simp add: consistent_def bounded_def)
  then show ?thesis ..
next
  case (Fulfilled b)
  then show ?thesis by (rule consistent_settleJob_fulfilled [OF c x qs])
next
  case (Rejected m)
  then show ?thesis by (rule consistent_settleJob_rejected [OF c x qs])
qed

lemma length_filter_all: "length (filter P xs) = length xs \<longleftrightarrow> (\<forall>x \<in> set xs. P x)"
proof (induction xs)
  case Nil
  show ?case by simp
next
  case (Cons x xs)
  have "length (filter P xs) \<le> length xs" by simp
  then have "length (filter P xs) \<noteq> Suc (length xs)" by linarith
  then show ?case using Cons by auto
qed

lemma successCount_total:
  "successCount s = total s \<longleftrightarrow> (\<forall>i < total s. vals s i = Some True)"
  using length_filter_all [of "\<lambda>i. vals s i = Some True" "[0..<total s]"]
  by (auto simp: successCount_def)

lemma consistent_onAll:
  assumes c: "consistent e s" and x: "exited s = None" and qs: "queue s = OnAll # q"
  shows "consistent e (onAllJob (s\<lparr>queue := q\<rparr>))"
proof -
  let ?t = "onAllJob (s\<lparr>queue := q\<rparr>)"
  define F where "F = fateOf ` set q"
  have fs: "fates s = insert Summary F"
    using qs by (simp add: fates_def F_def)
  from c have b: "bounded s" and rc: "recorded s" and v: "verdict s" and a: "alive e s"
    by (simp_all add: consistent_def)
  have sc: "successCount (s\<lparr>queue := q\<rparr>) = total s \<longleftrightarrow> (\<forall>i < total s. vals s i = Some True)"
    using successCount_total [of "s\<lparr>queue := q\<rparr>"] by simp
  have g: "total ?t = total s" "promises ?t = promises s" "vals ?t = vals s"
    "allst ?t = allst s" "waiting ?t = waiting s"
    "exited ?t = Some (if \<forall>i < total s. vals s i = Some True then 0 else 1)"
    "fates ?t = F"
    using sc by (auto simp: onAllJob_def fates_def F_def)
  have full: "\<forall>i < total s. vals s i \<noteq> None" and d: "\<forall>i b. vals s i = Some b \<longrightarrow> promises s i = Fulfilled b"
    using rc unfolding recorded_def fs by auto
  have "bounded ?t"
    using b unfolding bounded_def g fs by auto
  moreover have "recorded ?t"
    using rc unfolding recorded_def g fs by auto
  moreover have "verdict ?t"
  proof (cases "\<forall>i < total s. vals s i = Some True")
    case True
    then show ?thesis using d unfolding verdict_def g by auto
  next
    case False
    then obtain k where k: "k < total s" "vals s k \<noteq> Some True" by blast
    then have "vals s k = Some False" using full by (cases "vals s k") auto
    then have "promises s k = Fulfilled False" using d by blast
    then show ?thesis using False k unfolding verdict_def g by auto
  qed
  moreover have "alive e ?t"
    unfolding alive_def g by simp
  ultimately show ?thesis by (simp add: consistent_def)
qed

lemma consistent_onError:
  assumes c: "consistent e s" and x: "exited s = None" and qs: "queue s = OnError m # q"
  shows "consistent e (onErrorJob m (s\<lparr>queue := q\<rparr>))"
proof -
  let ?t = "onErrorJob m (s\<lparr>queue := q\<rparr>)"
  define F where "F = fateOf ` set q"
  have fs: "fates s = insert (Failing m) F"
    using qs by (simp add: fates_def F_def)
  from c have b: "bounded s" and rc: "recorded s" and v: "verdict s" and a: "alive e s"
    by (simp_all add: consistent_def)
  have g: "total ?t = total s" "promises ?t = promises s" "vals ?t = vals s"
    "allst ?t = allst s" "waiting ?t = waiting s" "exited ?t = Some 1" "fates ?t = F"
    by (auto simp: onErrorJob_def fates_def F_def)
  have "\<exists>i < total s. promises s i = Rejected m"
    using rc unfolding recorded_def fs by auto
  then have "verdict ?t" unfolding verdict_def g by auto
  moreover have "bounded ?t"
    using b unfolding bounded_def g fs by auto
  moreover have "recorded ?t"
  proof -
    have am: "allst s = AllRejected m" using rc unfolding recorded_def fs by simp
    show ?thesis using rc am unfolding recorded_def g fs by auto
  qed
  moreover have "alive e ?t"
    unfolding alive_def g by simp
  ultimately show ?thesis by (simp add: consistent_def)
qed

lemma deliver_fields:
  "total (deliver e ts s) = total s \<and> promises (deliver e ts s) = promises s
   \<and> vals (deliver e ts s) = vals s \<and> allst (deliver e ts s) = allst s
   \<and> waiting (deliver e ts s) = waiting s \<and> exited (deliver e ts s) = exited s
   \<and> fates (deliver e ts s) = fates s \<union> Carries ` {i \<in> fst ` set ts. \<not> endOfInput e i}"
  by (induction ts arbitrary: s) (auto simp: enqueue_def fates_def split: prod.splits)

lemma consistent_deliver:
  assumes c: "consistent e s" and x: "exited s = None" and qs: "queue s = []"
  shows "consistent e (deliver e (waiting s) (s\<lparr>waiting := []\<rparr>))"
proof -
  let ?t = "deliver e (waiting s) (s\<lparr>waiting := []\<rparr>)"
  have fs: "fates s = {}" using qs by (simp add: fates_def)
  have g: "total ?t = total s" "promises ?t = promises s" "vals ?t = vals s"
    "allst ?t = allst s" "waiting ?t = []" "exited ?t = exited s"
    "fates ?t = Carries ` {i \<in> fst ` set (waiting s). \<not> endOfInput e i}"
    using deliver_fields [of e "waiting s" "s\<lparr>waiting := []\<rparr>"] fs
    by (simp_all add: fates_def)
  from c have b: "bounded s" and rc: "recorded s" and v: "verdict s" and a: "alive e s"
    by (simp_all add: consistent_def)
  have "bounded ?t"
    using b unfolding bounded_def g fs by auto
  moreover have "recorded ?t"
    using rc unfolding recorded_def g fs by auto
  moreover have "verdict ?t"
    using x unfolding verdict_def g by simp
  moreover have "alive e ?t"
    using a x unfolding alive_def g fs by auto
  ultimately show ?thesis by (simp add: consistent_def)
qed

lemma same_world: "s\<lparr>wld := wld s\<rparr> = (s :: sched)"
  by simp

lemma step_shape:
  "(\<exists>w' j'. step e opts j s = enqueue [j'] (s\<lparr>wld := w'\<rparr>) \<and> fateOf j' = fateOf j)
   \<or> (\<exists>w' i r js d. fateOf j = Carries i \<and> r \<noteq> Pending \<and> (js = [] \<or> js = [Delete i d])
         \<and> step e opts j s = enqueue js (settle i r (s\<lparr>wld := w'\<rparr>)))
   \<or> (\<exists>i. j = Settle i \<and> step e opts j s = settleJob i s)
   \<or> (j = OnAll \<and> step e opts j s = onAllJob s)
   \<or> (\<exists>m. j = OnError m \<and> step e opts j s = onErrorJob m s)"
proof (cases "(e, opts, j, s)" rule: step.cases)
  case (1 e' opts' j' s')
  then have "step e opts j s = enqueue [j'] (s\<lparr>wld := wld s\<rparr>) \<and> fateOf j' = fateOf j"
    by simp
  then show ?thesis by blast
next
  case (2 e' opts' n j' s')
  then have "step e opts j s = enqueue [Tick n j'] (s\<lparr>wld := wld s\<rparr>) \<and> fateOf (Tick n j') = fateOf j"
    by simp
  then show ?thesis by blast
next
  case (3 e' opts' i d c s')
  show ?thesis
  proof (cases c)
    case False
    have "fateOf j = Carries i \<and> Fulfilled False \<noteq> Pending
          \<and> ([Delete i d] = [] \<or> [Delete i d] = [Delete i d])
          \<and> step e opts j s = enqueue [Delete i d] (settle i (Fulfilled False) (s\<lparr>wld := wld s\<rparr>))"
      using 3 False by (simp add: confirmedJob_def)
    then show ?thesis by blast
  next
    case True
    have "\<exists>w' j'. step e opts j s = enqueue [j'] (s\<lparr>wld := w'\<rparr>) \<and> fateOf j' = fateOf j"
    proof (cases "brutal opts")
      case True
      obtain ps w1 where g: "getProcessesUsingDirectory e d (emit (Out MChecking) (wld s)) = (ps, w1)"
        by (cases "getProcessesUsingDirectory e d (emit (Out MChecking) (wld s))")
      have "step e opts j s = enqueue [Scanned i d ps] (s\<lparr>wld := w1\<rparr>) \<and> fateOf (Scanned i d ps) = fateOf j"
        using 3 \<open>c\<close> True g by (simp add: confirmedJob_def)
      then show ?thesis by blast
    next
      case False
      have "step e opts j s = enqueue [Tick 1 (Delete i d)] (s\<lparr>wld := wld s\<rparr>)
            \<and> fateOf (Tick 1 (Delete i d)) = fateOf j"
        using 3 \<open>c\<close> False by (simp add: confirmedJob_def)
      then show ?thesis by blast
    qed
    then show ?thesis by blast
  qed
next
  case (4 e' opts' i d ps s')
  have "\<exists>w' j'. step e opts j s = enqueue [j'] (s\<lparr>wld := w'\<rparr>) \<and> fateOf j' = fateOf j"
  proof (cases "length ps > 0")
    case True
    let ?w = "emits (Out (MFound (length ps)) # map (\<lambda>p. Out (MPid (pid p) (name p))) ps
                        @ [Out MAttempting]) (wld s)"
    obtain res w1 where k: "killProcesses e ps ?w = (res, w1)"
      by (cases "killProcesses e ps ?w")
    show ?thesis
    proof (cases res)
      case (Inr killed)
      have "step e opts j s = enqueue [KilledAll i d killed] (s\<lparr>wld := w1\<rparr>)
            \<and> fateOf (KilledAll i d killed) = fateOf j"
        using 4 True k Inr by (simp add: scannedJob_def)
      then show ?thesis by blast
    next
      case (Inl kf)
      have "step e opts j s = enqueue [Tick 0 (KillFailed i d (fst kf) (snd kf))] (s\<lparr>wld := w1\<rparr>)
            \<and> fateOf (Tick 0 (KillFailed i d (fst kf) (snd kf))) = fateOf j"
        using 4 True k Inl by (simp add: scannedJob_def split: prod.splits)
      then show ?thesis by blast
    qed
  next
    case False
    have "step e opts j s = enqueue [Tick 1 (Delete i d)] (s\<lparr>wld := emit (Out MNoProcesses) (wld s)\<rparr>)
          \<and> fateOf (Tick 1 (Delete i d)) = fateOf j"
      using 4 False by (simp add: scannedJob_def)
    then show ?thesis by blast
  qed
  then show ?thesis by blast
next
  case (5 e' opts' i d killed s')
  then have "\<exists>w'. step e opts j s = enqueue [Tick 3 (Delete i d)] (s\<lparr>wld := w'\<rparr>)
        \<and> fateOf (Tick 3 (Delete i d)) = fateOf j"
    by (auto simp: killedAllJob_def)
  then show ?thesis by blast
next
  case (6 e' opts' i d killed failed s')
  then have "\<exists>w'. step e opts j s = enqueue [Tick 2 (Delete i d)] (s\<lparr>wld := w'\<rparr>)
        \<and> fateOf (Tick 2 (Delete i d)) = fateOf j"
    by (auto simp: killFailedJob_def)
  then show ?thesis by blast
next
  case (7 e' opts' i d s')
  obtain res w1 where k: "rmdir e d (emit (Out (MDeleting d)) (wld s)) = (res, w1)"
    by (cases "rmdir e d (emit (Out (MDeleting d)) (wld s))")
  have "\<exists>w' r. fateOf j = Carries i \<and> r \<noteq> Pending
        \<and> step e opts j s = enqueue [] (settle i r (s\<lparr>wld := w'\<rparr>))"
  proof (cases res)
    case (Inr u)
    have "fateOf j = Carries i \<and> Fulfilled True \<noteq> Pending
        \<and> step e opts j s = enqueue [] (settle i (Fulfilled True) (s\<lparr>wld := emit (Out (MDeleted d)) w1\<rparr>))"
      using 7 k Inr by (simp add: deleteJob_def enqueue_def)
    then show ?thesis by blast
  next
    case (Inl msg)
    have "fateOf j = Carries i \<and> Rejected msg \<noteq> Pending
        \<and> step e opts j s = enqueue [] (settle i (Rejected msg) (s\<lparr>wld := emit (Err (MErrorDeleting d msg)) w1\<rparr>))"
      using 7 k Inl by (simp add: deleteJob_def enqueue_def)
    then show ?thesis by blast
  qed
  then show ?thesis by blast
next
  case (8 e' opts' i s')
  then show ?thesis by simp
next
  case (9 e' opts' s')
  then show ?thesis by simp
next
  case (10 e' opts' msg s')
  then have "step e opts j s = enqueue [OnError msg] (s\<lparr>wld := wld s\<rparr>)
      \<and> fateOf (OnError msg) = fateOf j"
    by simp
  then show ?thesis by blast
next
  case (11 e' opts' msg s')
  then show ?thesis by simp
qed

lemma consistent_step:
  assumes c: "consistent e s" and x: "exited s = None" and qs: "queue s = j # q"
  shows "consistent e (step e opts j (s\<lparr>queue := q\<rparr>))"
proof -
  have x': "exited (s\<lparr>queue := q\<rparr>) = None" using x by simp
  consider
    (spawn) w' j' where "step e opts j (s\<lparr>queue := q\<rparr>) = enqueue [j'] (s\<lparr>queue := q, wld := w'\<rparr>)"
      "fateOf j' = fateOf j"
  | (settle) w' i r js d where "fateOf j = Carries i" "r \<noteq> Pending" "js = [] \<or> js = [Delete i d]"
      "step e opts j (s\<lparr>queue := q\<rparr>) = enqueue js (settle i r (s\<lparr>queue := q, wld := w'\<rparr>))"
  | (react) i where "j = Settle i" "step e opts j (s\<lparr>queue := q\<rparr>) = settleJob i (s\<lparr>queue := q\<rparr>)"
  | (summary) "j = OnAll" "step e opts j (s\<lparr>queue := q\<rparr>) = onAllJob (s\<lparr>queue := q\<rparr>)"
  | (failing) m where "j = OnError m" "step e opts j (s\<lparr>queue := q\<rparr>) = onErrorJob m (s\<lparr>queue := q\<rparr>)"
    using step_shape [of e opts j "s\<lparr>queue := q\<rparr>"] by blast
  then show ?thesis
  proof cases
    case spawn
    show ?thesis unfolding spawn(1) by (rule consistent_spawn [OF c qs spawn(2)])
  next
    case settle
    show ?thesis unfolding settle(4)
      by (rule consistent_settle [OF c x qs settle(1) settle(2) settle(3)])
  next
    case react
    show ?thesis unfolding react(2) using consistent_settleJob [OF c x] qs react(1) by simp
  next
    case summary
    show ?thesis unfolding summary(2) using consistent_onAll [OF c x] qs summary(1) by simp
  next
    case failing
    show ?thesis unfolding failing(2) using consistent_onError [OF c x] qs failing(1) by simp
  qed
qed

lemma run_consistent: "consistent e s \<Longrightarrow> consistent e (run e opts s)"
proof (rule run_invariant [where I = "consistent e"])
  show "\<And>s j q. consistent e s \<Longrightarrow> exited s = None \<Longrightarrow> queue s = j # q
          \<Longrightarrow> consistent e (step e opts j (s\<lparr>queue := q\<rparr>))"
    by (rule consistent_step)
  show "\<And>s. consistent e s \<Longrightarrow> exited s = None \<Longrightarrow> queue s = [] \<Longrightarrow> waiting s \<noteq> []
          \<Longrightarrow> consistent e (deliver e (waiting s) (s\<lparr>waiting := []\<rparr>))"
    by (rule consistent_deliver)
qed

lemma step_total: "total (step e opts j s) = total s"
  by (cases "(e, opts, j, s)" rule: step.cases)
     (auto simp: enqueue_def settle_def confirmedJob_def scannedJob_def killedAllJob_def
        killFailedJob_def deleteJob_def settleJob_def onAllJob_def onErrorJob_def Let_def
        split: prod.splits sum.splits pstate.splits)

lemma run_total: "total (run e opts s) = total s"
proof (rule run_invariant [where I = "\<lambda>t. total t = total s"])
  show "total s = total s" by simp
  show "\<And>t j q. total t = total s \<Longrightarrow> exited t = None \<Longrightarrow> queue t = j # q
          \<Longrightarrow> total (step e opts j (t\<lparr>queue := q\<rparr>)) = total s"
    by (simp add: step_total)
  show "\<And>t. total t = total s \<Longrightarrow> exited t = None \<Longrightarrow> queue t = [] \<Longrightarrow> waiting t \<noteq> []
          \<Longrightarrow> total (deliver e (waiting t) (t\<lparr>waiting := []\<rparr>)) = total s"
    by (simp add: deliver_fields)
qed

lemma consistent_idle:
  assumes c: "consistent e t" and q: "queue t = []" and w: "waiting t = []"
    and x: "exited t = None"
  shows "(\<exists>i < total t. promises t i = Pending \<and> endOfInput e i)
         \<and> (\<forall>i < total t. promises t i = Pending \<longrightarrow> endOfInput e i)
         \<and> (\<forall>i < total t. \<forall>m. promises t i \<noteq> Rejected m)"
proof -
  have fs: "fates t = {}" using q by (simp add: fates_def)
  from c have a: "alive e t" by (simp add: consistent_def)
  have np: "\<forall>i < total t. promises t i = Pending \<longrightarrow> endOfInput e i"
    using a x unfolding alive_def fs w by auto
  have ap: "allst t = AllPending"
    using a x unfolding alive_def fs by (cases "allst t") auto
  have nr: "\<forall>i < total t. vals t i = None \<longrightarrow> promises t i = Pending"
    using a x ap unfolding alive_def fs by auto
  obtain k where k: "k < total t" "vals t k = None"
    using a x ap unfolding alive_def by blast
  from c have rc: "recorded t" by (simp add: consistent_def)
  have rj: "\<forall>i < total t. \<forall>m. promises t i \<noteq> Rejected m"
  proof (intro allI impI)
    fix i m assume i: "i < total t"
    show "promises t i \<noteq> Rejected m"
    proof (cases "vals t i")
      case None
      then show ?thesis using nr i by simp
    next
      case (Some b)
      then have "promises t i = Fulfilled b" using rc by (simp add: recorded_def)
      then show ?thesis by simp
    qed
  qed
  show ?thesis using k nr np rj by blast
qed

lemma run_idle_end:
  assumes "consistent e s" "exited (run e opts s) = None"
  shows "(\<exists>i < total s. promises (run e opts s) i = Pending \<and> endOfInput e i)
         \<and> (\<forall>i < total s. promises (run e opts s) i = Pending \<longrightarrow> endOfInput e i)
         \<and> (\<forall>i < total s. \<forall>m. promises (run e opts s) i \<noteq> Rejected m)"
proof -
  have q: "queue (run e opts s) = []" and w: "waiting (run e opts s) = []"
    using run_final [of e opts s] assms(2) by simp_all
  have t: "total (run e opts s) = total s" by (rule run_total)
  show ?thesis
    using consistent_idle [OF run_consistent [OF assms(1), of opts] q w assms(2)]
    unfolding t .
qed

lemma run_exits:
  assumes "consistent e s" "\<forall>i < total s. promises s i = Pending \<longrightarrow> \<not> endOfInput e i"
  shows "exited (run e opts s) \<noteq> None"
proof
  assume x: "exited (run e opts s) = None"
  then obtain i where i: "i < total s" "promises (run e opts s) i = Pending" "endOfInput e i"
    using run_idle_end [OF assms(1) x] by blast
  have "promises s i \<noteq> Pending" using assms(2) i by blast
  then have "promises (run e opts s) i = promises s i"
  proof -
    assume np: "promises s i \<noteq> Pending"
    show ?thesis
    proof (rule run_invariant [where I = "\<lambda>t. promises t i = promises s i"])
      show "promises s i = promises s i" by simp
    next
      fix t :: sched and j q
      assume a: "promises t i = promises s i"
      show "promises (step e opts j (t\<lparr>queue := q\<rparr>)) i = promises s i"
        using a np
        by (cases "(e, opts, j, t\<lparr>queue := q\<rparr>)" rule: step.cases)
           (auto simp: enqueue_def settle_def confirmedJob_def scannedJob_def killedAllJob_def
              killFailedJob_def deleteJob_def settleJob_def onAllJob_def onErrorJob_def Let_def
              split: prod.splits sum.splits pstate.splits)
    next
      fix t :: sched
      assume "promises t i = promises s i"
      then show "promises (deliver e (waiting t) (t\<lparr>waiting := []\<rparr>)) i = promises s i"
        by (simp add: deliver_fields)
    qed
  qed
  then show False using i \<open>promises s i \<noteq> Pending\<close> by simp
qed

lemma exit_status:
  assumes "consistent e s"
  shows "(exited (run e opts s) = None \<or> exited (run e opts s) = Some 0
          \<or> exited (run e opts s) = Some 1)
         \<and> (exited (run e opts s) = Some 0
              \<longleftrightarrow> (\<forall>i < total s. promises (run e opts s) i = Fulfilled True))"
proof -
  let ?t = "run e opts s"
  have c: "consistent e ?t" by (rule run_consistent [OF assms])
  then have v: "verdict ?t" by (simp add: consistent_def)
  show ?thesis
  proof (cases "exited ?t")
    case None
    then obtain i where "i < total s" "promises ?t i = Pending"
      using run_idle_end [OF assms None] by blast
    then have "\<not> (\<forall>i < total s. promises ?t i = Fulfilled True)" by force
    then show ?thesis using None by simp
  next
    case (Some code)
    then show ?thesis using v unfolding verdict_def run_total by auto
  qed
qed

lemma start_total: "total (start e opts k d s) = total s"
  by (simp add: start_def enqueue_def split: prod.splits executed.splits)

lemma startAll_total: "total (startAll e opts k ds s) = total s"
  by (induction ds arbitrary: k s) (simp_all add: start_total)

lemma launching_start:
  assumes l: "launching k s"
  shows "launching (Suc k) (start e opts k d s)"
proof -
  obtain res w1 where r: "rmdirWithConfirmation e opts k d (wld s) = (res, w1)"
    by (cases "rmdirWithConfirmation e opts k d (wld s)")
  let ?t = "start e opts k d s"
  show ?thesis
  proof (cases res)
    case (Rejects msg)
    have g: "exited ?t = exited s" "allst ?t = allst s" "vals ?t = vals s" "fates ?t = fates s"
      "waiting ?t = waiting s" "promises ?t = (promises s)(k := Rejected msg)"
      using r Rejects by (simp_all add: start_def fates_def)
    show ?thesis using l unfolding launching_def g by (auto simp: less_Suc_eq)
  next
    case (Resolves b)
    have g: "exited ?t = exited s" "allst ?t = allst s" "vals ?t = vals s" "fates ?t = fates s"
      "waiting ?t = waiting s" "promises ?t = (promises s)(k := Fulfilled b)"
      using r Resolves by (simp_all add: start_def fates_def)
    show ?thesis using l unfolding launching_def g by (auto simp: less_Suc_eq)
  next
    case (Chained c)
    have g: "exited ?t = exited s" "allst ?t = allst s" "vals ?t = vals s"
      "fates ?t = insert (Carries k) (fates s)"
      "waiting ?t = waiting s" "promises ?t = promises s"
      using r Chained by (auto simp: start_def fates_def enqueue_def)
    show ?thesis using l unfolding launching_def g by (auto simp: less_Suc_eq)
  next
    case Waits
    have g: "exited ?t = exited s" "allst ?t = allst s" "vals ?t = vals s"
      "fates ?t = fates s"
      "fst ` set (waiting ?t) = insert k (fst ` set (waiting s))" "promises ?t = promises s"
      using r Waits by (auto simp: start_def fates_def)
    show ?thesis using l unfolding launching_def g by (auto simp: less_Suc_eq)
  qed
qed

lemma launching_startAll:
  "launching k s \<Longrightarrow> launching (k + length ds) (startAll e opts k ds s)"
proof (induction ds arbitrary: k s)
  case Nil
  then show ?case by simp
next
  case (Cons d ds)
  have "launching (Suc k + length ds) (startAll e opts (Suc k) ds (start e opts k d s))"
    by (rule Cons.IH [OF launching_start [OF Cons.prems]])
  then show ?case by simp
qed

lemma launching_initial: "launching 0 (initial n w)"
  by (simp add: launching_def initial_def fates_def)

lemma consistent_promiseAll:
  assumes l: "launching (total s) s" and n: "0 < total s"
  shows "consistent e (promiseAll s)"
proof -
  let ?t = "promiseAll s"
  have g0: "fates ?t = fates s \<union> Reacts ` {i. i < total s \<and> promises s i \<noteq> Pending}"
    by (force simp: promiseAll_def enqueue_def fates_def image_Un image_image)
  have g: "total ?t = total s" "promises ?t = promises s" "vals ?t = vals s"
    "allst ?t = allst s" "waiting ?t = waiting s" "exited ?t = exited s"
    "fates ?t = fates s \<union> Reacts ` {i. i < total s \<and> promises s i \<noteq> Pending}"
    using g0 by (simp_all add: promiseAll_def enqueue_def)
  have "bounded ?t"
    using l unfolding bounded_def g launching_def by auto
  moreover have "recorded ?t"
    using l unfolding recorded_def g launching_def by auto
  moreover have "verdict ?t"
    using l unfolding verdict_def g launching_def by simp
  moreover have "alive e ?t"
    using l n unfolding alive_def g launching_def by auto
  ultimately show ?thesis by (simp add: consistent_def)
qed

lemma consistent_launch:
  assumes "ds \<noteq> []"
  shows "consistent e (promiseAll (startAll e opts 0 ds (initial (length ds) w)))"
proof -
  let ?s = "startAll e opts 0 ds (initial (length ds) w)"
  have t: "total ?s = length ds" by (simp add: startAll_total initial_def)
  have "launching (0 + length ds) ?s"
    by (rule launching_startAll [OF launching_initial])
  then have "launching (total ?s) ?s" by (simp add: t)
  moreover have "0 < total ?s" using assms by (simp add: t)
  ultimately show ?thesis by (rule consistent_promiseAll)
qed

lemma processAll_exit_status:
  assumes "directories opts \<noteq> []"
  shows "(exited (processAll e opts w) = None \<or> exited (processAll e opts w) = Some 0
          \<or> exited (processAll e opts w) = Some 1)
         \<and> (exited (processAll e opts w) = Some 0
              \<longleftrightarrow> (\<forall>i < length (directories opts). promises (processAll e opts w) i = Fulfilled True))"
proof -
  let ?s = "promiseAll (startAll e opts 0 (directories opts) (initial (length (directories opts)) w))"
  have t: "total ?s = length (directories opts)"
    by (simp add: promiseAll_def enqueue_def startAll_total initial_def)
  show ?thesis
    using exit_status [OF consistent_launch [OF assms, where e = e and opts = opts and w = w],
            where opts = opts]
    unfolding processAll_def t .
qed

lemma processAll_idle_end:
  assumes "directories opts \<noteq> []" "exited (processAll e opts w) = None"
  shows "(\<exists>i < length (directories opts). promises (processAll e opts w) i = Pending \<and> endOfInput e i)
         \<and> (\<forall>i < length (directories opts).
               promises (processAll e opts w) i = Pending \<longrightarrow> endOfInput e i)
         \<and> (\<forall>i < length (directories opts). \<forall>m. promises (processAll e opts w) i \<noteq> Rejected m)"
proof -
  let ?s = "promiseAll (startAll e opts 0 (directories opts) (initial (length (directories opts)) w))"
  have t: "total ?s = length (directories opts)"
    by (simp add: promiseAll_def enqueue_def startAll_total initial_def)
  show ?thesis
    using run_idle_end [OF consistent_launch [OF assms(1), where e = e and opts = opts and w = w],
            where opts = opts] assms(2)
    unfolding processAll_def t by blast
qed

lemma processAll_exits:
  assumes "directories opts \<noteq> []" "\<forall>i < length (directories opts). \<not> endOfInput e i"
  shows "exited (processAll e opts w) \<noteq> None"
  using processAll_idle_end [OF assms(1), of e w] assms(2) by blast

section \<open>What the steps of a run do to the world\<close>

lemma grows_refl: "grows P w w"
  by (simp add: grows_def)

lemma grows_trans: "grows P w w1 \<Longrightarrow> grows P w1 w2 \<Longrightarrow> grows P w w2"
  by (auto simp: grows_def)

lemma grows_emit: "grows P w w0 \<Longrightarrow> P ev \<Longrightarrow> grows P w (emit ev w0)"
  by (auto simp: grows_def emit_def)

lemma grows_emits: "grows P w w0 \<Longrightarrow> list_all P evs \<Longrightarrow> grows P w (emits evs w0)"
  by (auto simp: grows_def emits_def)

lemma grows_exec: "grows P w w0 \<Longrightarrow> P (Exec c) \<Longrightarrow> grows P w (snd (exec e c w0))"
  by (auto simp: grows_def exec_def emit_def)

lemma grows_rmdir: "grows P w w0 \<Longrightarrow> P (Remove d) \<Longrightarrow> grows P w (snd (rmdir e d w0))"
  by (auto simp: grows_def rmdir_def emit_def Let_def split: option.splits)

lemma grows_checkDirectory:
  "grows P w w0 \<Longrightarrow> P (Stat d) \<Longrightarrow> (\<And>m. P (Err m)) \<Longrightarrow> grows P w (snd (checkDirectory d w0))"
  by (auto simp: grows_def checkDirectory_def emit_def Let_def split: node.splits fserr.splits)

lemma grows_isDirectoryEmpty:
  "grows P w w0 \<Longrightarrow> P (Readdir d) \<Longrightarrow> P (Out MReadError) \<Longrightarrow> grows P w (snd (isDirectoryEmpty d w0))"
  by (auto simp: grows_def isDirectoryEmpty_def emit_def Let_def split: node.splits)

lemma grows_getDirectorySize:
  "grows P w w0 \<Longrightarrow> P (Out MReadError) \<Longrightarrow> grows P w (snd (getDirectorySize d w0))"
  by (auto simp: grows_def getDirectorySize_def emits_def Let_def list_all_iff)

lemma grows_confirmDeletion:
  "grows P w w0 \<Longrightarrow> (\<And>m. P (Out m)) \<Longrightarrow> (\<And>b. P (Question i b))
     \<Longrightarrow> grows P w (snd (confirmDeletion i d opts w0))"
  unfolding confirmDeletion_def Let_def case_prod_beta
  by (auto intro!: grows_emits grows_getDirectorySize)

lemma grows_answered:
  "grows P w w0 \<Longrightarrow> P (Out MCancelled) \<Longrightarrow> grows P w (snd (answered a w0))"
  by (auto simp: answered_def Let_def intro: grows_emit)

lemma grows_collectProcesses:
  "grows P w w0 \<Longrightarrow> (\<And>c. P (Exec c)) \<Longrightarrow> grows P w (snd (collectProcesses e d w0))"
  unfolding collectProcesses_def
  by (auto split: prod.splits sum.splits simp: exec_def emit_def grows_def)

lemma grows_getProcesses:
  "grows P w w0 \<Longrightarrow> (\<And>c. P (Exec c)) \<Longrightarrow> grows P w (snd (getProcessesUsingDirectory e d w0))"
  using grows_collectProcesses [of P w w0 e d]
  by (simp add: getProcessesUsingDirectory_def case_prod_beta)

lemma grows_killProcesses:
  "grows P w w0 \<Longrightarrow> (\<And>c. P (Exec c)) \<Longrightarrow> grows P w (snd (killProcesses e ps w0))"
  by (auto simp: killProcesses_closed Let_def grows_def list_all_iff)

lemma fs_emit [simp]: "fs (emit ev w) = fs w"
  by (simp add: emit_def)

lemma fs_emits [simp]: "fs (emits evs w) = fs w"
  by (simp add: emits_def)

lemma fs_exec [simp]: "fs (snd (exec e c w)) = fs w"
  by (simp add: exec_def)

lemma fs_checkDirectory [simp]: "fs (snd (checkDirectory d w)) = fs w"
  by (simp add: checkDirectory_def Let_def split: node.splits fserr.splits)

lemma fs_isDirectoryEmpty [simp]: "fs (snd (isDirectoryEmpty d w)) = fs w"
  by (simp add: isDirectoryEmpty_def Let_def split: node.splits)

lemma fs_confirmDeletion [simp]: "fs (snd (confirmDeletion i d opts w)) = fs w"
  by (simp add: confirmDeletion_def Let_def case_prod_beta getDirectorySize_fs)

lemma fs_answered [simp]: "fs (snd (answered a w)) = fs w"
  by (simp add: answered_def Let_def)

lemma fs_collectProcesses [simp]: "fs (snd (collectProcesses e d w)) = fs w"
  by (simp add: collectProcesses_def exec_def split: prod.splits sum.splits)

lemma fs_getProcesses [simp]: "fs (snd (getProcessesUsingDirectory e d w)) = fs w"
  by (simp add: getProcessesUsingDirectory_def case_prod_beta)

lemma fs_killProcesses [simp]: "fs (snd (killProcesses e ps w)) = fs w"
  by (simp add: killProcesses_closed Let_def)

lemma fs_rmdir: "fs (snd (rmdir e d w)) = rmdirEffect e (clock w) d (fs w)"
  by (simp add: rmdir_def Let_def split: option.splits)

lemma clock_checkDirectory [simp]: "clock (snd (checkDirectory d w)) = clock w"
  by (simp add: checkDirectory_def emit_def Let_def split: node.splits fserr.splits)

lemma clock_isDirectoryEmpty [simp]: "clock (snd (isDirectoryEmpty d w)) = clock w"
  by (simp add: isDirectoryEmpty_def emit_def Let_def split: node.splits)

lemma checkDirectory_result: "fst (checkDirectory d w) = (fs w d = Sealed \<or> (\<exists>es. fs w d = Dir es))"
  by (simp add: checkDirectory_def Let_def split: node.splits fserr.splits)

lemma isDirectoryEmpty_result: "fst (isDirectoryEmpty d w) = (fs w d = Dir [])"
  by (simp add: isDirectoryEmpty_def Let_def split: node.splits)

lemma rwc_empty:
  assumes "fs w d = Dir []"
  shows "rmdirWithConfirmation e opts i d w =
     (case rmdirError e (clock w) d of
        None \<Rightarrow> (Resolves True,
                  w\<lparr>fs := rmdirEffect e (clock w) d (fs w), clock := Suc (clock w),
                    trace := trace w @ [Stat d, Readdir d, Remove d, Out (MDeleted d)]\<rparr>)
      | Some msg \<Rightarrow> (Rejects msg,
                  w\<lparr>fs := rmdirEffect e (clock w) d (fs w), clock := Suc (clock w),
                    trace := trace w @ [Stat d, Readdir d, Remove d, Err (MErrorDeleting d msg)]\<rparr>))"
  using assms
  by (simp add: rmdirWithConfirmation_def checkDirectory_def isDirectoryEmpty_def rmdir_def
        emit_def Let_def split: option.splits)

lemma rwc_not_empty_unforced:
  assumes "fs w d = Sealed \<or> (\<exists>es. fs w d = Dir es \<and> es \<noteq> [])" "\<not> force opts" "\<not> brutal opts"
  shows "rmdirWithConfirmation e opts i d w =
     (Rejects ''Directory not empty'',
      w\<lparr>trace := trace w @ [Stat d, Readdir d]
                  @ (if fs w d = Sealed then [Out MReadError] else [])
                  @ [Err (MNotEmpty d), Err MUseForceOrBrutal]\<rparr>)"
  using assms
  by (auto simp: rmdirWithConfirmation_def checkDirectory_def isDirectoryEmpty_def
        emit_def emits_def Let_def)

lemma rwc_fs:
  "fs (snd (rmdirWithConfirmation e opts i d w)) =
     (if fs w d = Dir [] then rmdirEffect e (clock w) d (fs w) else fs w)"
proof (cases "fs w d = Dir []")
  case True
  then show ?thesis by (simp add: rwc_empty split: option.splits)
next
  case False
  then have ne: "\<not> fst (isDirectoryEmpty d (snd (checkDirectory d w)))"
    by (simp add: isDirectoryEmpty_result)
  show ?thesis using False ne
    by (simp add: rmdirWithConfirmation_def case_prod_beta split: bool.splits confirmation.splits)
qed

lemma rwc_grows:
  assumes "P (Readdir d)" "\<And>m. P (Out m)" "\<And>m. P (Err m)" "\<And>b. P (Question i b)"
    "fs w d = Dir [] \<Longrightarrow> P (Remove d)"
  shows "grows P (emit (Stat d) w) (snd (rmdirWithConfirmation e opts i d w))"
proof (cases "fs w d = Dir []")
  case True
  then show ?thesis using assms
    by (auto simp: rwc_empty grows_def emit_def split: option.splits)
next
  case False
  have c: "grows P (emit (Stat d) w) (snd (checkDirectory d w))"
    using assms(3) by (auto simp: grows_def checkDirectory_def emit_def Let_def split: node.splits fserr.splits)
  have i: "grows P (emit (Stat d) w) (snd (isDirectoryEmpty d (snd (checkDirectory d w))))"
    by (rule grows_isDirectoryEmpty [OF c assms(1) assms(2)])
  have ne: "\<not> fst (isDirectoryEmpty d (snd (checkDirectory d w)))"
    using False by (simp add: isDirectoryEmpty_result)
  have k: "grows P (emit (Stat d) w)
             (snd (confirmDeletion i d opts (snd (isDirectoryEmpty d (snd (checkDirectory d w))))))"
    by (rule grows_confirmDeletion [OF i assms(2) assms(4)])
  have n: "grows P (emit (Stat d) w)
             (emits [Err (MNotEmpty d), Err MUseForceOrBrutal] (snd (isDirectoryEmpty d (snd (checkDirectory d w)))))"
    by (rule grows_emits [OF i]) (simp add: assms(3))
  show ?thesis using c k n ne
    by (simp add: rmdirWithConfirmation_def case_prod_beta split: bool.splits confirmation.splits)
qed

lemma rwc_stats:
  "filter isStat (trace (snd (rmdirWithConfirmation e opts i d w))) = filter isStat (trace w) @ [Stat d]"
proof -
  have "grows (\<lambda>ev. \<not> isStat ev) (emit (Stat d) w) (snd (rmdirWithConfirmation e opts i d w))"
    by (rule rwc_grows) (simp_all add: isStat_def)
  then obtain evs where "trace (snd (rmdirWithConfirmation e opts i d w)) = trace w @ Stat d # evs"
    "list_all (\<lambda>ev. \<not> isStat ev) evs"
    by (auto simp: grows_def emit_def)
  then show ?thesis by (simp add: isStat_def list_all_iff)
qed

lemma wld_enqueue [simp]: "wld (enqueue js s) = wld s"
  by (simp add: enqueue_def)

lemma wld_settle [simp]: "wld (settle i r s) = wld s"
  by (simp add: settle_def)

lemma grows_step:
  assumes o: "\<And>m. P (Out m)" and er: "\<And>m. P (Err m)" and x: "\<And>c. P (Exec c)"
    and rm: "\<And>d. P (Remove d)"
  shows "grows P (wld s) (wld (step e opts j s))"
proof (cases "(e, opts, j, s)" rule: step.cases)
  case (3 e' opts' i d c s')
  have g: "grows P (wld s) (snd (getProcessesUsingDirectory e d (emit (Out MChecking) (wld s))))"
    by (intro grows_getProcesses grows_emit grows_refl o x)
  show ?thesis using 3 g
    by (simp add: confirmedJob_def case_prod_beta grows_refl)
next
  case (4 e' opts' i d ps s')
  let ?w = "emits (Out (MFound (length ps)) # map (\<lambda>p. Out (MPid (pid p) (name p))) ps
                        @ [Out MAttempting]) (wld s)"
  have a: "grows P (wld s) ?w"
    by (rule grows_emits, rule grows_refl) (simp add: o list_all_iff)
  have k: "grows P (wld s) (snd (killProcesses e ps ?w))"
    by (rule grows_killProcesses, rule a, rule x)
  have n: "grows P (wld s) (emit (Out MNoProcesses) (wld s))"
    by (intro grows_emit grows_refl o)
  show ?thesis using 4 k n
    by (cases "killProcesses e ps ?w"; cases "fst (killProcesses e ps ?w)")
       (auto simp: scannedJob_def)
next
  case (5 e' opts' i d killed s')
  have "grows P (wld s) (emit (Out (MKilled (length killed))) (wld s))"
    by (intro grows_emit grows_refl o)
  with 5 show ?thesis by (simp add: killedAllJob_def)
next
  case (6 e' opts' i d killed failed s')
  have "grows P (wld s) (emits
           ([Out MCouldNotKillAll]
            @ (if length killed > 0 then [Out (MKilledSome (length killed))] else [])
            @ (if length failed > 0
               then Out (MFailedSome (length failed))
                    # map (\<lambda>f. Out (MFailedPid (pid (fst f)) (snd f))) failed
               else []))
           (wld s))"
    by (rule grows_emits, rule grows_refl) (auto simp: o list_all_iff)
  with 6 show ?thesis by (simp add: killFailedJob_def)
next
  case (7 e' opts' i d s')
  have r: "grows P (wld s) (snd (rmdir e d (emit (Out (MDeleting d)) (wld s))))"
    by (intro grows_rmdir grows_emit grows_refl o rm)
  have r1: "grows P (wld s) (emit (Out (MDeleted d)) (snd (rmdir e d (emit (Out (MDeleting d)) (wld s)))))"
    by (intro grows_emit r o)
  have r2: "\<And>msg. grows P (wld s) (emit (Err (MErrorDeleting d msg)) (snd (rmdir e d (emit (Out (MDeleting d)) (wld s)))))"
    by (intro grows_emit r er)
  show ?thesis using 7 r1 r2
    by (cases "rmdir e d (emit (Out (MDeleting d)) (wld s))"; cases "fst (rmdir e d (emit (Out (MDeleting d)) (wld s)))")
       (auto simp: deleteJob_def)
next
  case (8 e' opts' i s')
  then show ?thesis by (simp add: settleJob_def Let_def grows_refl split: pstate.splits)
next
  case (9 e' opts' s')
  have "\<And>m. grows P (wld s) (emit (Out m) (wld s))"
    by (intro grows_emit grows_refl o)
  with 9 show ?thesis by (simp add: onAllJob_def)
next
  case (11 e' opts' msg s')
  have "\<And>m. grows P (wld s) (emit (Err m) (wld s))"
    by (intro grows_emit grows_refl er)
  with 11 show ?thesis by (simp add: onErrorJob_def)
qed (simp_all add: grows_refl)

lemma grows_deliver:
  assumes o: "\<And>m. P (Out m)"
  shows "grows P (wld s) (wld (deliver e ts s))"
proof (induction ts arbitrary: s)
  case Nil
  show ?case by (simp add: grows_refl)
next
  case (Cons t ts)
  let ?s1 = "enqueue [Confirmed (fst t) (snd t) (fst (answered (answer e (fst t)) (wld s)))]
            (s\<lparr>wld := snd (answered (answer e (fst t)) (wld s))\<rparr>)"
  have a: "grows P (wld s) (wld ?s1)"
    using grows_answered [of P "wld s" "wld s" "answer e (fst t)"] o by (simp add: grows_refl)
  have b: "grows P (wld ?s1) (wld (deliver e ts ?s1))" by (rule Cons.IH)
  have "grows P (wld s) (wld (deliver e ts ?s1))" using a b by (rule grows_trans)
  then show ?case using Cons.IH [of s] by (simp add: case_prod_beta)
qed

lemma grows_run:
  assumes o: "\<And>m. P (Out m)" and er: "\<And>m. P (Err m)" and x: "\<And>c. P (Exec c)"
    and rm: "\<And>d. P (Remove d)"
  shows "grows P (wld s) (wld (run e opts s))"
proof (rule run_invariant [where I = "\<lambda>t. grows P (wld s) (wld t)"])
  show "grows P (wld s) (wld s)" by (rule grows_refl)
next
  fix t :: sched and j q
  assume g: "grows P (wld s) (wld t)"
  have "grows P (wld (t\<lparr>queue := q\<rparr>)) (wld (step e opts j (t\<lparr>queue := q\<rparr>)))"
    by (intro grows_step o er x rm)
  then show "grows P (wld s) (wld (step e opts j (t\<lparr>queue := q\<rparr>)))"
    using grows_trans [OF g] by simp
next
  fix t :: sched
  assume g: "grows P (wld s) (wld t)"
  have "grows P (wld (t\<lparr>waiting := []\<rparr>)) (wld (deliver e (waiting t) (t\<lparr>waiting := []\<rparr>)))"
    by (intro grows_deliver o)
  then show "grows P (wld s) (wld (deliver e (waiting t) (t\<lparr>waiting := []\<rparr>)))"
    using grows_trans [OF g] by simp
qed

lemma start_wld: "wld (start e opts k d s) = snd (rmdirWithConfirmation e opts k d (wld s))"
  by (simp add: start_def split: prod.splits executed.splits)

lemma start_promises:
  "promises (start e opts k d s) =
     (case fst (rmdirWithConfirmation e opts k d (wld s)) of
        Rejects msg \<Rightarrow> (promises s)(k := Rejected msg)
      | Resolves b \<Rightarrow> (promises s)(k := Fulfilled b)
      | _ \<Rightarrow> promises s)"
  by (simp add: start_def enqueue_def split: prod.splits executed.splits)

lemma startAll_promises_before: "j < k \<Longrightarrow> promises (startAll e opts k ds s) j = promises s j"
  by (induction ds arbitrary: k s) (auto simp: start_promises split: executed.splits)

lemma startAll_stats:
  "filter isStat (trace (wld (startAll e opts k ds s))) = filter isStat (trace (wld s)) @ map Stat ds"
  by (induction ds arbitrary: k s) (simp_all add: start_wld rwc_stats)

lemma start_grows:
  assumes "P (Stat d)" "P (Readdir d)" "\<And>m. P (Out m)" "\<And>m. P (Err m)" "\<And>b. P (Question k b)"
    "fs (wld s) d = Dir [] \<Longrightarrow> P (Remove d)"
  shows "grows P (wld s) (wld (start e opts k d s))"
proof -
  have a: "grows P (wld s) (emit (Stat d) (wld s))"
    by (intro grows_emit grows_refl assms(1))
  have b: "grows P (emit (Stat d) (wld s)) (snd (rmdirWithConfirmation e opts k d (wld s)))"
    by (rule rwc_grows) (simp_all add: assms)
  show ?thesis unfolding start_wld using a b by (rule grows_trans)
qed

lemma startAll_grows:
  assumes "\<And>d. P (Stat d)" "\<And>d. P (Readdir d)" "\<And>m. P (Out m)" "\<And>m. P (Err m)"
    "\<And>i b. P (Question i b)" "\<And>d. P (Remove d)"
  shows "grows P (wld s) (wld (startAll e opts k ds s))"
proof (induction ds arbitrary: k s)
  case Nil
  show ?case by (simp add: grows_refl)
next
  case (Cons d ds)
  have a: "grows P (wld s) (wld (start e opts k d s))"
    by (rule start_grows) (simp_all add: assms)
  show ?case using grows_trans [OF a Cons.IH] by simp
qed

lemma promises_settleJob: "promises (settleJob i s) = promises s"
  by (cases "promises s i") (simp_all add: settleJob_def Let_def enqueue_def)

lemma step_promises:
  assumes "promises s i \<noteq> Pending"
  shows "promises (step e opts j s) i = promises s i"
  using step_shape [of e opts j s] assms
  by (auto simp: enqueue_def settle_def promises_settleJob onAllJob_def onErrorJob_def)

lemma deliver_promises: "promises (deliver e ts s) = promises s"
  by (simp add: deliver_fields)

lemma run_settled:
  assumes "promises s i \<noteq> Pending"
  shows "promises (run e opts s) i = promises s i"
proof (rule run_invariant [where I = "\<lambda>t. promises t i = promises s i"])
  show "promises s i = promises s i" by simp
next
  fix t :: sched and j q
  assume "promises t i = promises s i"
  then show "promises (step e opts j (t\<lparr>queue := q\<rparr>)) i = promises s i"
    using step_promises [of "t\<lparr>queue := q\<rparr>" i e opts j] assms by simp
next
  fix t :: sched
  assume "promises t i = promises s i"
  then show "promises (deliver e (waiting t) (t\<lparr>waiting := []\<rparr>)) i = promises s i"
    by (simp add: deliver_promises)
qed

lemma run_stats:
  "filter isStat (trace (wld (run e opts s))) = filter isStat (trace (wld s))"
proof -
  have "grows (\<lambda>ev. \<not> isStat ev) (wld s) (wld (run e opts s))"
    by (rule grows_run) (simp_all add: isStat_def)
  then show ?thesis by (auto simp: grows_def list_all_iff)
qed

section \<open>Properties of a whole run\<close>

lemma main_processes:
  "parseArgs args = Inr opts \<Longrightarrow> \<not> help' opts \<Longrightarrow> \<not> version' opts \<Longrightarrow> directories opts \<noteq> []
     \<Longrightarrow> main e args w = processAll e opts w"
  by (simp add: main_def)

lemma wld_promiseAll [simp]: "wld (promiseAll s) = wld s"
  by (simp add: promiseAll_def)

lemma trace_run: "ev \<in> set (trace (wld s)) \<Longrightarrow> ev \<in> set (trace (wld (run e opts s)))"
  using grows_run [of "\<lambda>ev. True" s e opts] by (auto simp: grows_def)

text \<open>
  Claim C5, as amended. For an existing empty directory, whatever the flags, the
  orchestrator calls \<open>rmdir\<close> at once: it asks no question and runs no external command.
  When \<open>rmdir\<close> returns, the success line is printed and the promise is resolved with
  \<open>true\<close>; when \<open>rmdir\<close> throws, the error line is printed and the promise is rejected
  with the error. The file system is left as that one call of \<open>rmdir\<close> leaves it.
\<close>

theorem empty_directory_deleted_directly:
  "fs w d = Dir [] \<longrightarrow>
     (rmdirError e (clock w) d = None \<longrightarrow>
        rmdirWithConfirmation e opts i d w
          = (Resolves True,
             w\<lparr>fs := rmdirEffect e (clock w) d (fs w), clock := Suc (clock w),
               trace := trace w @ [Stat d, Readdir d, Remove d, Out (MDeleted d)]\<rparr>))
     \<and> (\<forall>msg. rmdirError e (clock w) d = Some msg \<longrightarrow>
          rmdirWithConfirmation e opts i d w
            = (Rejects msg,
               w\<lparr>fs := rmdirEffect e (clock w) d (fs w), clock := Suc (clock w),
                 trace := trace w @ [Stat d, Readdir d, Remove d, Err (MErrorDeleting d msg)]\<rparr>))"
  by (simp add: rwc_empty)

theorem empty_directory_deleted_directly_witness:
  "fs twoDirs ''e'' = Dir []
   \<and> rmdirWithConfirmation decliningEnv (defaultOptions\<lparr>force := True, brutal := True\<rparr>) 0 ''e'' twoDirs
       = (Resolves True,
          twoDirs\<lparr>fs := (fs twoDirs)(''e'' := NoStat ENOENT), clock := Suc (clock twoDirs),
                  trace := [Stat ''e'', Readdir ''e'', Remove ''e'', Out (MDeleted ''e'')]\<rparr>)"
proof -
  have f: "fs twoDirs ''e'' = Dir []" by (simp add: twoDirs_def)
  have r: "rmdirError decliningEnv (clock twoDirs) ''e'' = None
           \<and> rmdirEffect decliningEnv (clock twoDirs) ''e'' (fs twoDirs)
               = (fs twoDirs)(''e'' := NoStat ENOENT)"
    by (simp add: decliningEnv_def)
  have t: "trace twoDirs = []" by (simp add: twoDirs_def)
  show ?thesis
    using empty_directory_deleted_directly
            [of twoDirs "''e''" decliningEnv "defaultOptions\<lparr>force := True, brutal := True\<rparr>" 0] f r t
    by simp
qed

text \<open>
  Claim C5 as stated fails: when \<open>rmdir\<close> throws for an empty directory, no success is
  reported.
\<close>

theorem empty_directory_counterexample:
  "fs twoDirs ''e'' = Dir []
   \<and> fst (rmdirWithConfirmation busyEnv defaultOptions 0 ''e'' twoDirs) = Rejects ''EBUSY''
   \<and> trace (snd (rmdirWithConfirmation busyEnv defaultOptions 0 ''e'' twoDirs))
       = [Stat ''e'', Readdir ''e'', Remove ''e'', Err (MErrorDeleting ''e'' ''EBUSY'')]"
  by code_simp


lemma scannedJob_queue:
  "queue (scannedJob e i d ps s) = queue s @
     [if length ps > 0
      then (case fst (killProcesses e ps
                  (emits (Out (MFound (length ps)) # map (\<lambda>p. Out (MPid (pid p) (name p))) ps
                          @ [Out MAttempting]) (wld s))) of
              Inr killed \<Rightarrow> KilledAll i d killed
            | Inl kf \<Rightarrow> Tick 0 (KillFailed i d (fst kf) (snd kf)))
      else Tick 1 (Delete i d)]"
  by (simp add: scannedJob_def enqueue_def split: prod.splits sum.splits)

lemma step_awaits:
  assumes r: "reachesDelete j d" and x: "exited s = None" and w: "waiting s = []" and q: "queue s = []"
  shows "Remove d \<in> set (trace (wld (step e opts j s))) \<or> awaits d (step e opts j s)"
proof (cases "(e, opts, j, s)" rule: step.cases)
  case (1 e' opts' j' s')
  then show ?thesis using r x w q by (simp add: awaits_def enqueue_def)
next
  case (2 e' opts' n j' s')
  then show ?thesis using r x w q by (simp add: awaits_def enqueue_def)
next
  case (3 e' opts' i d' c s')
  then show ?thesis using r x w q
    by (auto simp: awaits_def enqueue_def confirmedJob_def split: prod.splits)
next
  case (4 e' opts' i d' ps s')
  have "exited (scannedJob e i d ps s) = None \<and> waiting (scannedJob e i d ps s) = []"
    using x w by (simp add: scannedJob_def enqueue_def split: prod.splits sum.splits)
  then show ?thesis using 4 r q scannedJob_queue [of e i d ps s]
    by (auto simp: awaits_def split: sum.splits)
next
  case (5 e' opts' i d' killed s')
  then show ?thesis using r x w q by (simp add: awaits_def enqueue_def killedAllJob_def)
next
  case (6 e' opts' i d' killed failed s')
  then show ?thesis using r x w q by (simp add: awaits_def enqueue_def killFailedJob_def)
next
  case (7 e' opts' i d' s')
  then have "Remove d \<in> set (trace (wld (step e opts j s)))" using r
    by (auto simp: deleteJob_def rmdir_def emit_def Let_def split: option.splits)
  then show ?thesis ..
qed (use r in simp_all)

lemma awaits_run: "awaits d s \<Longrightarrow> Remove d \<in> set (trace (wld (run e opts s)))"
proof (induction e opts s rule: run.induct)
  case (1 e opts s)
  from "1.prems" obtain j where x: "exited s = None" and w: "waiting s = []"
    and q: "queue s = [j]" and r: "reachesDelete j d"
    by (auto simp: awaits_def)
  let ?t = "step e opts j (s\<lparr>queue := []\<rparr>)"
  have rs: "run e opts s = run e opts ?t" using x q by (rule run_step)
  have "Remove d \<in> set (trace (wld ?t)) \<or> awaits d ?t"
    by (rule step_awaits [OF r]) (simp_all add: x w)
  then show ?case
  proof
    assume "Remove d \<in> set (trace (wld ?t))"
    then show ?thesis unfolding rs by (rule trace_run)
  next
    assume "awaits d ?t"
    then show ?thesis unfolding rs by (rule "1.IH"(2) [OF x q])
  qed
qed

lemma rwc_consented:
  assumes "fs w d = Sealed \<or> (\<exists>es. fs w d = Dir es \<and> es \<noteq> [])" "force opts \<or> brutal opts"
  shows "fst (rmdirWithConfirmation e opts i d w) = (if yes opts then Chained True else Waits)"
proof -
  have c: "fst (checkDirectory d w)" using assms(1) by (auto simp: checkDirectory_result)
  have fsc: "fs (snd (checkDirectory d w)) = fs w" by simp
  have ne: "\<not> fst (isDirectoryEmpty d (snd (checkDirectory d w)))"
    using assms(1) by (auto simp: isDirectoryEmpty_result)
  show ?thesis using c ne assms(2)
    by (auto simp: rmdirWithConfirmation_def confirmDeletion_def case_prod_beta Let_def
          split: bool.splits)
qed

lemma single_awaits:
  assumes "fs w d = Sealed \<or> (\<exists>es. fs w d = Dir es \<and> es \<noteq> [])" "force opts \<or> brutal opts"
    "yes opts \<or> (\<not> endOfInput e 0 \<and> affirmative (answer e 0))"
  shows "Remove d \<in> set (trace (wld (run e opts (promiseAll (startAll e opts 0 [d] (initial 1 w))))))"
proof (cases "yes opts")
  case True
  have "awaits d (promiseAll (startAll e opts 0 [d] (initial 1 w)))"
    using rwc_consented [OF assms(1,2), of e 0] True
    by (auto simp: awaits_def start_def promiseAll_def enqueue_def initial_def split: prod.splits)
  then show ?thesis by (rule awaits_run)
next
  case False
  let ?s = "promiseAll (startAll e opts 0 [d] (initial 1 w))"
  have s: "exited ?s = None \<and> queue ?s = [] \<and> waiting ?s = [(0, d)]"
    using rwc_consented [OF assms(1,2), of e 0] False
    by (auto simp: start_def promiseAll_def enqueue_def initial_def split: prod.splits)
  have rs: "run e opts ?s = run e opts (deliver e (waiting ?s) (?s\<lparr>waiting := []\<rparr>))"
    using s by (intro run_deliver) simp_all
  have "awaits d (deliver e (waiting ?s) (?s\<lparr>waiting := []\<rparr>))"
    using s assms(3) False by (simp add: awaits_def answered_def enqueue_def)
  then show ?thesis unfolding rs by (rule awaits_run)
qed

text \<open>
  Claim C3, as amended. \<open>killProcesses\<close> never throws: it runs one kill command for every
  process, in order, whatever the outcome of the commands before, and it splits the
  processes into those whose command succeeded and those whose command failed, the
  latter with the message. When no command failed the promise is resolved with the list
  of the killed (the empty list for no process); otherwise it is rejected with the
  record of both lists. The orchestrator goes on to the deletion in both cases: after a
  scan, the next job of the target is the callback of the resolved or of the rejected
  promise, and each of them, as the scan that found nothing, hands on to the deletion;
  in a run for one non-empty target in brutal mode with consent (the \<open>yes\<close> flag, or a
  line that is read and affirmative), \<open>rmdir\<close> is called for it whatever the kill commands
  do.
\<close>

theorem killProcesses_partition:
  "killProcesses e ps w =
     (let attempts = enumerate (clock w) ps;
          killed = map snd (filter (succeeds e) attempts);
          failed = map (failure e) (filter (\<lambda>kp. \<not> succeeds e kp) attempts)
      in (if failed = [] then Inr killed else Inl (killed, failed),
          w\<lparr>clock := clock w + length ps, trace := trace w @ map (\<lambda>p. Exec (killCommand e p)) ps\<rparr>))
   \<and> killProcesses e [] w = (Inr [], w)
   \<and> queue (step e opts (Scanned i d ps) s) = queue s @
       [if length ps > 0
        then (case fst (killProcesses e ps
                  (emits (Out (MFound (length ps)) # map (\<lambda>p. Out (MPid (pid p) (name p))) ps
                          @ [Out MAttempting]) (wld s))) of
                Inr killed \<Rightarrow> KilledAll i d killed
              | Inl kf \<Rightarrow> Tick 0 (KillFailed i d (fst kf) (snd kf)))
        else Tick 1 (Delete i d)]
   \<and> queue (step e opts (KilledAll i d killed) s) = queue s @ [Tick 3 (Delete i d)]
   \<and> queue (step e opts (KillFailed i d killed failed) s) = queue s @ [Tick 2 (Delete i d)]
   \<and> (parseArgs args = Inr opts \<and> \<not> help' opts \<and> \<not> version' opts \<and> directories opts = [d]
        \<and> brutal opts \<and> (yes opts \<or> (\<not> endOfInput e 0 \<and> affirmative (answer e 0)))
        \<and> (fs w d = Sealed \<or> (\<exists>es. fs w d = Dir es \<and> es \<noteq> []))
      \<longrightarrow> Remove d \<in> set (trace (wld (main e args w))))"
proof (intro conjI impI)
  show "killProcesses e ps w =
     (let attempts = enumerate (clock w) ps;
          killed = map snd (filter (succeeds e) attempts);
          failed = map (failure e) (filter (\<lambda>kp. \<not> succeeds e kp) attempts)
      in (if failed = [] then Inr killed else Inl (killed, failed),
          w\<lparr>clock := clock w + length ps, trace := trace w @ map (\<lambda>p. Exec (killCommand e p)) ps\<rparr>))"
    by (simp add: killProcesses_closed Let_def)
  show "killProcesses e [] w = (Inr [], w)"
    by (simp add: killProcesses_def)
  show "queue (step e opts (Scanned i d ps) s) = queue s @
       [if length ps > 0
        then (case fst (killProcesses e ps
                  (emits (Out (MFound (length ps)) # map (\<lambda>p. Out (MPid (pid p) (name p))) ps
                          @ [Out MAttempting]) (wld s))) of
                Inr killed \<Rightarrow> KilledAll i d killed
              | Inl kf \<Rightarrow> Tick 0 (KillFailed i d (fst kf) (snd kf)))
        else Tick 1 (Delete i d)]"
    by (simp only: step.simps scannedJob_queue)
  show "queue (step e opts (KilledAll i d killed) s) = queue s @ [Tick 3 (Delete i d)]"
    by (simp add: killedAllJob_def enqueue_def)
  show "queue (step e opts (KillFailed i d killed failed) s) = queue s @ [Tick 2 (Delete i d)]"
    by (simp add: killFailedJob_def enqueue_def)
next
  assume h: "parseArgs args = Inr opts \<and> \<not> help' opts \<and> \<not> version' opts \<and> directories opts = [d]
        \<and> brutal opts \<and> (yes opts \<or> (\<not> endOfInput e 0 \<and> affirmative (answer e 0)))
        \<and> (fs w d = Sealed \<or> (\<exists>es. fs w d = Dir es \<and> es \<noteq> []))"
  then have m: "main e args w = run e opts (promiseAll (startAll e opts 0 [d] (initial 1 w)))"
    using main_processes [of args opts e w] by (simp add: processAll_def)
  show "Remove d \<in> set (trace (wld (main e args w)))"
    unfolding m by (rule single_awaits) (use h in auto)
qed

theorem killProcesses_partition_witness:
  "parseArgs [''-b'', ''-y'', ''d'']
     = Inr \<lparr>force = False, yes = True, brutal = True, help' = False, version' = False,
            directories = [''d'']\<rparr>
   \<and> fst (killProcesses lsofEnv twoProcesses brokenWorld)
       = Inl ([\<lparr>pid = Some 12, name = ''node''\<rparr>],
              [(\<lparr>pid = Some 7, name = ''vim''\<rparr>, ''Operation not permitted'')])
   \<and> Remove ''d'' \<in> set (trace (wld (main lsofEnv [''-b'', ''-y'', ''d''] brokenWorld)))"
proof -
  have p: "parseArgs [''-b'', ''-y'', ''d'']
     = Inr \<lparr>force = False, yes = True, brutal = True, help' = False, version' = False,
            directories = [''d'']\<rparr>"
    by code_simp
  have k: "fst (killProcesses lsofEnv twoProcesses brokenWorld)
       = Inl ([\<lparr>pid = Some 12, name = ''node''\<rparr>],
              [(\<lparr>pid = Some 7, name = ''vim''\<rparr>, ''Operation not permitted'')])"
    by code_simp
  have f: "fs brokenWorld ''d'' = Dir [(''a'', NoStat ENOENT), (''b'', File 10)]"
    by (simp add: brokenWorld_def)
  show ?thesis
    using killProcesses_partition
      [of lsofEnv twoProcesses brokenWorld
          "\<lparr>force = False, yes = True, brutal = True, help' = False, version' = False,
             directories = [''d'']\<rparr>" 0 "''d''" "initial 1 brokenWorld" "[]" "[]"
          "[''-b'', ''-y'', ''d'']"] p k f
    by simp
qed

text \<open>
  Claim C3 as stated fails: when one of two kill commands fails, the promise of
  \<open>killProcesses\<close> is rejected (with the record of the killed and the failed); and for
  no process it is resolved with the empty list, not with a record.
\<close>

theorem killProcesses_counterexample:
  "fst (killProcesses lsofEnv twoProcesses brokenWorld)
     = Inl ([\<lparr>pid = Some 12, name = ''node''\<rparr>],
            [(\<lparr>pid = Some 7, name = ''vim''\<rparr>, ''Operation not permitted'')])
   \<and> fst (killProcesses lsofEnv [] brokenWorld) = Inr []"
  by code_simp

lemma startAll_append:
  "startAll e opts i (xs @ ys) s = startAll e opts (i + length xs) ys (startAll e opts i xs s)"
  by (induction xs arbitrary: i s) simp_all

lemma pass_split:
  assumes "k \<le> m"
  shows "pass e opts w m
           = startAll e opts k (take (m - k) (drop k (directories opts))) (pass e opts w k)"
proof -
  let ?ds = "directories opts"
  have t: "take m ?ds = take k ?ds @ take (m - k) (drop k ?ds)"
    using assms by (metis le_add_diff_inverse take_add)
  show ?thesis
  proof (cases "k \<le> length ?ds")
    case True
    then have "length (take k ?ds) = k" by simp
    then show ?thesis
      unfolding pass_def t using startAll_append [of e opts 0 "take k ?ds"] by simp
  next
    case False
    then show ?thesis using assms by (simp add: pass_def)
  qed
qed

lemma pass_Suc:
  assumes "k < length (directories opts)"
  shows "pass e opts w (Suc k) = start e opts k (directories opts ! k) (pass e opts w k)"
proof -
  have "take (Suc k - k) (drop k (directories opts)) = [directories opts ! k]"
    using assms by (simp add: take_Suc_conv_app_nth hd_drop_conv_nth take_Suc)
  then show ?thesis using pass_split [of k "Suc k" e opts w] by simp
qed

lemma pass_0: "pass e opts w 0 = initial (length (directories opts)) w"
  by (simp add: pass_def)

lemma processAll_pass:
  "processAll e opts w = run e opts (promiseAll (pass e opts w (length (directories opts))))"
  by (simp add: processAll_def pass_def)

lemma pass_promise:
  assumes "k < length (directories opts)"
  shows "promises (pass e opts w (length (directories opts))) k
           = promises (start e opts k (directories opts ! k) (pass e opts w k)) k"
proof -
  have "promises (pass e opts w (length (directories opts))) k = promises (pass e opts w (Suc k)) k"
    using pass_split [of "Suc k" "length (directories opts)" e opts w] assms
    by (simp add: startAll_promises_before)
  then show ?thesis by (simp add: pass_Suc [OF assms])
qed

lemma pass_trace:
  assumes "k \<le> m" "ev \<in> set (trace (wld (pass e opts w k)))"
  shows "ev \<in> set (trace (wld (pass e opts w m)))"
proof -
  have "grows (\<lambda>ev. True) (wld (pass e opts w k)) (wld (pass e opts w m))"
    unfolding pass_split [OF assms(1)] by (rule startAll_grows) simp_all
  then show ?thesis using assms(2) by (auto simp: grows_def)
qed

lemma processAll_settled:
  assumes "k < length (directories opts)"
    "promises (start e opts k (directories opts ! k) (pass e opts w k)) k \<noteq> Pending"
  shows "promises (processAll e opts w) k
           = promises (start e opts k (directories opts ! k) (pass e opts w k)) k"
proof -
  have "promises (promiseAll (pass e opts w (length (directories opts)))) k
          = promises (start e opts k (directories opts ! k) (pass e opts w k)) k"
    using pass_promise [OF assms(1)] by (simp add: promiseAll_def enqueue_def)
  then show ?thesis
    unfolding processAll_pass
    using run_settled [of "promiseAll (pass e opts w (length (directories opts)))" k e opts] assms(2)
    by simp
qed

lemma rejected_exit:
  assumes "directories opts \<noteq> []" "k < length (directories opts)"
    "promises (processAll e opts w) k = Rejected m"
  shows "exited (processAll e opts w) = Some 1"
proof -
  note st = processAll_exit_status [OF assms(1), of e w]
  have a: "exited (processAll e opts w) \<noteq> None"
    using processAll_idle_end [OF assms(1), of e w] assms(2,3) by blast
  have b: "exited (processAll e opts w) \<noteq> Some 0"
    using st assms(2,3) by auto
  have "exited (processAll e opts w) = None \<or> exited (processAll e opts w) = Some 0
        \<or> exited (processAll e opts w) = Some 1"
    using st by (rule conjunct1)
  then show ?thesis using a b by blast
qed

lemma processAll_trace:
  assumes "ev \<in> set (trace (wld (pass e opts w k)))" "k \<le> length (directories opts)"
  shows "ev \<in> set (trace (wld (processAll e opts w)))"
  unfolding processAll_pass
  using trace_run [of ev "promiseAll (pass e opts w (length (directories opts)))" e opts]
    pass_trace [OF assms(2) assms(1)] by simp

lemma quiet_step:
  assumes qt: "quiet s" and qs: "queue s = j # q"
  shows "quiet (step e opts j (s\<lparr>queue := q\<rparr>))
         \<and> fs (wld (step e opts j (s\<lparr>queue := q\<rparr>))) = fs (wld s)
         \<and> grows isLine (wld s) (wld (step e opts j (s\<lparr>queue := q\<rparr>)))"
proof -
  have nc: "\<And>i. fateOf j \<noteq> Carries i \<and> Carries i \<noteq> fateOf j"
    and nq: "\<And>x i. x \<in> set q \<Longrightarrow> fateOf x \<noteq> Carries i \<and> Carries i \<noteq> fateOf x"
    and w: "waiting s = []"
    using qt qs by (auto simp: quiet_def fates_def image_iff, metis+)
  have o: "\<And>m. grows isLine (wld s) (emit (Out m) (wld s))"
    and er: "\<And>m. grows isLine (wld s) (emit (Err m) (wld s))"
    by (intro grows_emit grows_refl; simp add: isLine_def)+
  show ?thesis
  proof (cases "(e, opts, j, s\<lparr>queue := q\<rparr>)" rule: step.cases)
    case (1 e' opts' j' s')
    then show ?thesis using nc nq w by (auto simp: quiet_def fates_def enqueue_def grows_refl)
  next
    case (2 e' opts' n j' s')
    then show ?thesis using nc nq w by (auto simp: quiet_def fates_def enqueue_def grows_refl)
  next
    case (8 e' opts' i s')
    then show ?thesis using nc nq w
      by (cases "promises s i")
         (auto simp: quiet_def fates_def enqueue_def settleJob_def Let_def grows_refl
            split: if_splits)
  next
    case (9 e' opts' s')
    then show ?thesis using nc nq w o
      by (auto simp: quiet_def fates_def onAllJob_def)
  next
    case (10 e' opts' msg s')
    then show ?thesis using nc nq w by (auto simp: quiet_def fates_def enqueue_def grows_refl)
  next
    case (11 e' opts' msg s')
    then show ?thesis using nc nq w er
      by (auto simp: quiet_def fates_def onErrorJob_def)
  qed (use nc in auto)
qed

lemma quiet_run:
  assumes "quiet s"
  shows "fs (wld (run e opts s)) = fs (wld s) \<and> grows isLine (wld s) (wld (run e opts s))"
proof -
  have "quiet (run e opts s) \<and> fs (wld (run e opts s)) = fs (wld s)
        \<and> grows isLine (wld s) (wld (run e opts s))"
  proof (rule run_invariant
      [where I = "\<lambda>t. quiet t \<and> fs (wld t) = fs (wld s) \<and> grows isLine (wld s) (wld t)"])
    show "quiet s \<and> fs (wld s) = fs (wld s) \<and> grows isLine (wld s) (wld s)"
      using assms by (simp add: grows_refl)
  next
    fix t :: sched and j q
    assume i: "quiet t \<and> fs (wld t) = fs (wld s) \<and> grows isLine (wld s) (wld t)"
      and qs: "queue t = j # q"
    from i have qt: "quiet t" by simp
    note st = quiet_step [OF qt qs, of e opts]
    show "quiet (step e opts j (t\<lparr>queue := q\<rparr>))
          \<and> fs (wld (step e opts j (t\<lparr>queue := q\<rparr>))) = fs (wld s)
          \<and> grows isLine (wld s) (wld (step e opts j (t\<lparr>queue := q\<rparr>)))"
      using st i grows_trans [of isLine "wld s" "wld t"] by auto
  next
    fix t :: sched
    assume "quiet t \<and> fs (wld t) = fs (wld s) \<and> grows isLine (wld s) (wld t)"
      and "waiting t \<noteq> []"
    then have False by (simp add: quiet_def)
    then show "quiet (deliver e (waiting t) (t\<lparr>waiting := []\<rparr>))
          \<and> fs (wld (deliver e (waiting t) (t\<lparr>waiting := []\<rparr>))) = fs (wld s)
          \<and> grows isLine (wld s) (wld (deliver e (waiting t) (t\<lparr>waiting := []\<rparr>)))" ..
  qed
  then show ?thesis by simp
qed

lemma rwc_unforced:
  assumes "\<not> force opts" "\<not> brutal opts"
  shows "(\<exists>m. fst (rmdirWithConfirmation e opts i d w) = Rejects m)
         \<or> (\<exists>b. fst (rmdirWithConfirmation e opts i d w) = Resolves b)"
  using assms
  by (auto simp: rmdirWithConfirmation_def case_prod_beta isDirectoryEmpty_result
        split: bool.splits sum.splits)

lemma start_unforced:
  assumes "\<not> force opts" "\<not> brutal opts"
  shows "queue (start e opts k d s) = queue s \<and> waiting (start e opts k d s) = waiting s"
  using rwc_unforced [OF assms, of e k d "wld s"]
  by (auto simp: start_def split: prod.splits executed.splits)

lemma startAll_unforced:
  assumes "\<not> force opts" "\<not> brutal opts"
  shows "queue (startAll e opts k ds s) = queue s \<and> waiting (startAll e opts k ds s) = waiting s"
  by (induction ds arbitrary: k s) (simp_all add: start_unforced [OF assms])

lemma quiet_launch:
  assumes "\<not> force opts" "\<not> brutal opts"
  shows "quiet (promiseAll (startAll e opts 0 ds (initial n w)))"
  using startAll_unforced [OF assms, of e 0 ds "initial n w"]
  by (auto simp: quiet_def fates_def promiseAll_def enqueue_def initial_def)


lemma startAll_fs_kept:
  assumes "\<forall>n d' f. d' \<noteq> d \<longrightarrow> rmdirEffect e n d' f d = f d" "fs (wld s) d \<noteq> Dir []"
  shows "fs (wld (startAll e opts k ds s)) d = fs (wld s) d"
  using assms(2)
proof (induction ds arbitrary: k s)
  case Nil
  show ?case by simp
next
  case (Cons d' ds)
  have a: "fs (wld (start e opts k d' s)) d = fs (wld s) d"
    using Cons.prems assms(1) by (cases "d' = d") (auto simp: start_wld rwc_fs)
  then show ?case using Cons.IH [of "start e opts k d' s" "Suc k"] Cons.prems by simp
qed

lemma startAll_not_removed:
  assumes "\<forall>n d' f. d' \<noteq> d \<longrightarrow> rmdirEffect e n d' f d = f d" "fs (wld s) d \<noteq> Dir []"
  shows "grows (\<lambda>ev. ev \<noteq> Remove d) (wld s) (wld (startAll e opts k ds s))"
  using assms(2)
proof (induction ds arbitrary: k s)
  case Nil
  show ?case by (simp add: grows_refl)
next
  case (Cons d' ds)
  have a: "grows (\<lambda>ev. ev \<noteq> Remove d) (wld s) (wld (start e opts k d' s))"
    by (rule start_grows) (use Cons.prems in auto)
  have f: "fs (wld (start e opts k d' s)) d \<noteq> Dir []"
    using Cons.prems assms(1) by (cases "d' = d") (auto simp: start_wld rwc_fs)
  show ?case using grows_trans [OF a Cons.IH [OF f]] by simp
qed

text \<open>
  Claim C6, as amended. A target that is a non-empty directory when it is inspected
  (after the targets before it on the command line have been processed), with neither
  \<open>force\<close> nor \<open>brutal\<close> set: the orchestrator prints the guidance to use one of these
  flags and rejects the promise with \<open>Directory not empty\<close>, after one \<open>statSync\<close> and one
  listing and nothing else, so that the inspection calls no \<open>rmdir\<close> and changes nothing in
  the file system; the promise of the target stays rejected and the exit status of the
  run is 1. When moreover no removal of another path changes what the path of the target
  finds, and the directory is not empty when the run starts, the whole run leaves it as
  it was and never calls \<open>rmdir\<close> for it.
\<close>

theorem non_empty_rejected_without_force:
  assumes "fs w d = Dir es" "es \<noteq> []" "\<not> force opts" "\<not> brutal opts"
  shows "rmdirWithConfirmation e opts i d w
           = (Rejects ''Directory not empty'',
              w\<lparr>trace := trace w @ [Stat d, Readdir d, Err (MNotEmpty d), Err MUseForceOrBrutal]\<rparr>)
         \<and> (parseArgs args = Inr opts \<and> \<not> help' opts \<and> \<not> version' opts
              \<and> k < length (directories opts) \<and> directories opts ! k = d
              \<and> wld (pass e opts w0 k) = w
              \<longrightarrow> wld (pass e opts w0 (Suc k))
                    = w\<lparr>trace := trace w @ [Stat d, Readdir d, Err (MNotEmpty d),
                                             Err MUseForceOrBrutal]\<rparr>
                  \<and> promises (main e args w0) k = Rejected ''Directory not empty''
                  \<and> exited (main e args w0) = Some 1)
         \<and> (parseArgs args = Inr opts \<and> \<not> help' opts \<and> \<not> version' opts
              \<and> d \<in> set (directories opts)
              \<and> (\<forall>n d' f. d' \<noteq> d \<longrightarrow> rmdirEffect e n d' f d = f d)
              \<longrightarrow> exited (main e args w) = Some 1
                  \<and> fs (wld (main e args w)) d = fs w d
                  \<and> grows (\<lambda>ev. ev \<noteq> Remove d) w (wld (main e args w)))"
proof (intro conjI impI)
  show "rmdirWithConfirmation e opts i d w
           = (Rejects ''Directory not empty'',
              w\<lparr>trace := trace w @ [Stat d, Readdir d, Err (MNotEmpty d), Err MUseForceOrBrutal]\<rparr>)"
    using assms by (simp add: rwc_not_empty_unforced)
next
  assume h: "parseArgs args = Inr opts \<and> \<not> help' opts \<and> \<not> version' opts
              \<and> k < length (directories opts) \<and> directories opts ! k = d
              \<and> wld (pass e opts w0 k) = w"
  then have ne: "directories opts \<noteq> []" and k: "k < length (directories opts)" by auto
  have mp: "main e args w0 = processAll e opts w0"
    using h ne by (intro main_processes) auto
  have r: "rmdirWithConfirmation e opts k d (wld (pass e opts w0 k))
           = (Rejects ''Directory not empty'',
              w\<lparr>trace := trace w @ [Stat d, Readdir d, Err (MNotEmpty d), Err MUseForceOrBrutal]\<rparr>)"
    using assms h by (simp add: rwc_not_empty_unforced)
  show "wld (pass e opts w0 (Suc k))
          = w\<lparr>trace := trace w @ [Stat d, Readdir d, Err (MNotEmpty d), Err MUseForceOrBrutal]\<rparr>"
    using h r by (simp add: pass_Suc [OF k] start_wld)
  have p: "promises (start e opts k (directories opts ! k) (pass e opts w0 k)) k
             = Rejected ''Directory not empty''"
    using h r by (simp add: start_promises)
  show pf: "promises (main e args w0) k = Rejected ''Directory not empty''"
    unfolding mp using processAll_settled [OF k, of e w0] p by simp
  show "exited (main e args w0) = Some 1"
    using rejected_exit [OF ne k, of e w0] pf unfolding mp by simp
next
  assume h: "parseArgs args = Inr opts \<and> \<not> help' opts \<and> \<not> version' opts
              \<and> d \<in> set (directories opts)
              \<and> (\<forall>n d' f. d' \<noteq> d \<longrightarrow> rmdirEffect e n d' f d = f d)"
  let ?ds = "directories opts"
  let ?s0 = "initial (length ?ds) w"
  let ?pass = "startAll e opts 0 ?ds ?s0"
  have ne: "?ds \<noteq> []" using h by auto
  have mp: "main e args w = processAll e opts w"
    using h ne by (intro main_processes) auto
  have m: "main e args w = run e opts (promiseAll ?pass)"
    unfolding mp by (simp add: processAll_def)
  have w0: "wld ?s0 = w" by (simp add: initial_def)
  have ind: "\<forall>n d' f. d' \<noteq> d \<longrightarrow> rmdirEffect e n d' f d = f d" using h by simp
  have nd: "fs (wld ?s0) d \<noteq> Dir []" using assms by (simp add: w0)
  obtain k where k: "k < length ?ds" "?ds ! k = d" using h by (auto simp: in_set_conv_nth)
  have "pass e opts w k = startAll e opts 0 (take k ?ds) ?s0" by (simp add: pass_def)
  then have fk: "fs (wld (pass e opts w k)) d = fs w d"
    using startAll_fs_kept [OF ind nd, of opts 0 "take k ?ds"] by (simp add: w0)
  have r: "rmdirWithConfirmation e opts k d (wld (pass e opts w k))
           = (Rejects ''Directory not empty'',
              (wld (pass e opts w k))\<lparr>trace := trace (wld (pass e opts w k))
                 @ [Stat d, Readdir d, Err (MNotEmpty d), Err MUseForceOrBrutal]\<rparr>)"
    using assms fk by (simp add: rwc_not_empty_unforced)
  have p: "promises (start e opts k (?ds ! k) (pass e opts w k)) k = Rejected ''Directory not empty''"
    using k r by (simp add: start_promises)
  have pf: "promises (processAll e opts w) k = Rejected ''Directory not empty''"
    using processAll_settled [OF k(1), of e w] p by simp
  show "exited (main e args w) = Some 1"
    using rejected_exit [OF ne k(1), of e w] pf unfolding mp by simp
  have q: "quiet (promiseAll ?pass)" by (rule quiet_launch [OF assms(3,4)])
  show "fs (wld (main e args w)) d = fs w d"
    unfolding m using quiet_run [OF q, of e opts] startAll_fs_kept [OF ind nd, of opts 0 ?ds]
    by (simp add: w0)
  have g1: "grows (\<lambda>ev. ev \<noteq> Remove d) w (wld ?pass)"
    using startAll_not_removed [OF ind nd, of opts 0 ?ds] by (simp add: w0)
  have "grows isLine (wld ?pass) (wld (main e args w))"
    unfolding m using quiet_run [OF q, of e opts] by simp
  then have g2: "grows (\<lambda>ev. ev \<noteq> Remove d) (wld ?pass) (wld (main e args w))"
    by (force simp: grows_def list_all_iff isLine_def)
  show "grows (\<lambda>ev. ev \<noteq> Remove d) w (wld (main e args w))"
    using g1 g2 by (rule grows_trans)
qed

theorem non_empty_rejected_without_force_witness:
  "fs twoDirs ''a'' = Dir [(''f'', File 3)]
   \<and> parseArgs [''e'', ''a''] = Inr (defaultOptions\<lparr>directories := [''e'', ''a'']\<rparr>)
   \<and> trace (wld (pass decliningEnv (defaultOptions\<lparr>directories := [''e'', ''a'']\<rparr>) twoDirs 1))
       = [Stat ''e'', Readdir ''e'', Remove ''e'', Out (MDeleted ''e'')]
   \<and> exited (main decliningEnv [''e'', ''a''] twoDirs) = Some 1
   \<and> promises (main decliningEnv [''e'', ''a''] twoDirs) 1 = Rejected ''Directory not empty''
   \<and> fs (wld (main decliningEnv [''e'', ''a''] twoDirs)) ''a'' = Dir [(''f'', File 3)]
   \<and> trace (wld (main decliningEnv [''e'', ''a''] twoDirs))
       = [Stat ''e'', Readdir ''e'', Remove ''e'', Out (MDeleted ''e''),
          Stat ''a'', Readdir ''a'', Err (MNotEmpty ''a''), Err MUseForceOrBrutal,
          Err (MOperationFailed ''Directory not empty'')]"
proof -
  let ?o = "defaultOptions\<lparr>directories := [''e'', ''a'']\<rparr>"
  let ?w = "wld (pass decliningEnv ?o twoDirs 1)"
  have f: "fs twoDirs ''a'' = Dir [(''f'', File 3)]" by (simp add: twoDirs_def)
  have f1: "fs ?w ''a'' = Dir [(''f'', File 3)]" by code_simp
  have p: "parseArgs [''e'', ''a''] = Inr ?o"
    by code_simp
  have t1: "trace ?w = [Stat ''e'', Readdir ''e'', Remove ''e'', Out (MDeleted ''e'')]"
    by code_simp
  have t: "trace (wld (main decliningEnv [''e'', ''a''] twoDirs))
       = [Stat ''e'', Readdir ''e'', Remove ''e'', Out (MDeleted ''e''),
          Stat ''a'', Readdir ''a'', Err (MNotEmpty ''a''), Err MUseForceOrBrutal,
          Err (MOperationFailed ''Directory not empty'')]"
    by code_simp
  have i: "\<forall>n d' f. d' \<noteq> ''a'' \<longrightarrow> rmdirEffect decliningEnv n d' f ''a'' = f ''a''"
    by (simp add: decliningEnv_def)
  show ?thesis
    using non_empty_rejected_without_force
            [of ?w "''a''" "[(''f'', File 3)]" ?o decliningEnv 0 "[''e'', ''a'']" 1 twoDirs]
          non_empty_rejected_without_force
            [of twoDirs "''a''" "[(''f'', File 3)]" ?o decliningEnv 0 "[''e'', ''a'']" 1 twoDirs]
          f f1 p t t1 i
    by (simp add: defaultOptions_def)
qed

text \<open>
  Claim C6 as stated fails: \<open>a\<close> is a directory that holds only the empty directory \<open>b\<close>.
  With the targets \<open>a/b a\<close> and no flag, \<open>a/b\<close> is removed first, \<open>a\<close> is then found empty
  and removed as well, and the run exits with status 0.
\<close>

theorem non_empty_counterexample:
  "fs nestedDirs ''a'' = Dir [(''b'', Dir [])]
   \<and> parseArgs [''a/b'', ''a''] = Inr (defaultOptions\<lparr>directories := [''a/b'', ''a'']\<rparr>)
   \<and> trace (wld (main nestedEnv [''a/b'', ''a''] nestedDirs))
       = [Stat ''a/b'', Readdir ''a/b'', Remove ''a/b'', Out (MDeleted ''a/b''),
          Stat ''a'', Readdir ''a'', Remove ''a'', Out (MDeleted ''a''), Out MAllDeleted]
   \<and> fs (wld (main nestedEnv [''a/b'', ''a''] nestedDirs)) ''a'' = NoStat ENOENT
   \<and> exited (main nestedEnv [''a/b'', ''a''] nestedDirs) = Some 0"
  by code_simp

lemma rwc_inspection: "grows inspection w (snd (rmdirWithConfirmation e opts i d w))"
proof -
  let ?w1 = "snd (checkDirectory d w)"
  let ?w2 = "snd (isDirectoryEmpty d ?w1)"
  have c: "grows inspection w ?w1"
    by (auto simp: grows_def checkDirectory_def emit_def Let_def split: node.splits fserr.splits)
  have i: "grows inspection w ?w2"
    by (rule grows_isDirectoryEmpty [OF c]) simp_all
  have n: "grows inspection w (emits [Err (MNotEmpty d), Err MUseForceOrBrutal] ?w2)"
    by (rule grows_emits [OF i]) simp
  have g: "grows inspection w (snd (getDirectorySize d ?w2))"
    by (rule grows_getDirectorySize [OF i]) simp
  have k: "grows inspection w (snd (confirmDeletion i d opts ?w2))"
    unfolding confirmDeletion_def Let_def case_prod_beta
    using i by (auto intro!: grows_emits [OF grows_emits [OF g]])
  have r: "grows inspection w (snd (rmdir e d ?w2))"
    by (rule grows_rmdir [OF i]) simp
  have r1: "grows inspection w (emit (Out (MDeleted d)) (snd (rmdir e d ?w2)))"
    by (rule grows_emit [OF r]) simp
  have r2: "\<And>msg. grows inspection w (emit (Err (MErrorDeleting d msg)) (snd (rmdir e d ?w2)))"
    by (rule grows_emit [OF r]) simp
  show ?thesis using c n k r1 r2
    by (simp add: rmdirWithConfirmation_def case_prod_beta
          split: bool.splits confirmation.splits sum.splits)
qed

lemma startAll_inspection: "grows inspection (wld s) (wld (startAll e opts k ds s))"
proof (induction ds arbitrary: k s)
  case Nil
  show ?case by (simp add: grows_refl)
next
  case (Cons d ds)
  have a: "grows inspection (wld s) (wld (start e opts k d s))"
    by (simp add: start_wld rwc_inspection)
  show ?case using grows_trans [OF a Cons.IH] by simp
qed

lemma rwc_removes:
  "filter isRemove (trace (snd (rmdirWithConfirmation e opts i d w)))
     = filter isRemove (trace w) @ (if fs w d = Dir [] then [Remove d] else [])"
proof (cases "fs w d = Dir []")
  case True
  then show ?thesis by (simp add: rwc_empty isRemove_def split: option.splits)
next
  case False
  have "grows (\<lambda>ev. \<not> isRemove ev) (emit (Stat d) w) (snd (rmdirWithConfirmation e opts i d w))"
    by (rule rwc_grows) (simp_all add: isRemove_def False)
  then show ?thesis using False by (auto simp: grows_def emit_def isRemove_def list_all_iff)
qed

lemma pass_removes:
  assumes "k \<le> length (directories opts)"
  shows "filter isRemove (trace (wld (pass e opts w k)))
           = filter isRemove (trace w)
             @ map (\<lambda>j. Remove (directories opts ! j))
                 (filter (\<lambda>j. whenInspected e opts w j = Dir []) [0..<k])"
  using assms
proof (induction k)
  case 0
  show ?case by (simp add: pass_0 initial_def)
next
  case (Suc k)
  then have k: "k < length (directories opts)" by simp
  show ?case
    using Suc.IH k
    by (simp add: pass_Suc [OF k] start_wld rwc_removes whenInspected_def)
qed

text \<open>
  Claim C2, as amended. The targets are inspected one after the other, in the order of
  the command line, in one synchronous pass that ends before any confirmation is
  answered, any process is looked for or killed, and any directory that is not empty
  when it is inspected is deleted. The pass writes only what the executor of a target
  writes: no external command, no cancellation line, no line of the scan, of the kill
  phase or of the deferred deletion; it has exactly one \<open>statSync\<close> for each target, in
  order; and its calls of \<open>rmdir\<close> are those for the targets that are empty directories
  when they are inspected, in order. Everything else the run does comes after the pass,
  and has no \<open>statSync\<close>, no listing and no question.
\<close>

theorem pass_then_deferred:
  assumes "parseArgs args = Inr opts" "\<not> help' opts" "\<not> version' opts" "directories opts \<noteq> []"
  shows "grows inspection w (wld (pass e opts w (length (directories opts))))
         \<and> filter isStat (trace (wld (pass e opts w (length (directories opts)))))
             = filter isStat (trace w) @ map Stat (directories opts)
         \<and> filter isRemove (trace (wld (pass e opts w (length (directories opts)))))
             = filter isRemove (trace w)
               @ map (\<lambda>k. Remove (directories opts ! k))
                   (filter (\<lambda>k. whenInspected e opts w k = Dir []) [0..<length (directories opts)])
         \<and> main e args w = run e opts (promiseAll (pass e opts w (length (directories opts))))
         \<and> grows deferred (wld (pass e opts w (length (directories opts)))) (wld (main e args w))"
proof -
  let ?n = "length (directories opts)"
  let ?s0 = "initial ?n w"
  have m: "main e args w = run e opts (promiseAll (pass e opts w ?n))"
    using main_processes [OF assms] by (simp add: processAll_pass)
  have w0: "wld ?s0 = w" by (simp add: initial_def)
  have p: "pass e opts w ?n = startAll e opts 0 (directories opts) ?s0" by (simp add: pass_def)
  have a: "grows inspection w (wld (pass e opts w ?n))"
    unfolding p using startAll_inspection [of ?s0 e opts 0 "directories opts"] by (simp add: w0)
  have b: "filter isStat (trace (wld (pass e opts w ?n)))
             = filter isStat (trace w) @ map Stat (directories opts)"
    unfolding p using startAll_stats [of e opts 0 "directories opts" ?s0] by (simp add: w0)
  have c: "filter isRemove (trace (wld (pass e opts w ?n)))
             = filter isRemove (trace w)
               @ map (\<lambda>k. Remove (directories opts ! k))
                   (filter (\<lambda>k. whenInspected e opts w k = Dir []) [0..<?n])"
    by (rule pass_removes) simp
  have "grows deferred (wld (promiseAll (pass e opts w ?n))) (wld (run e opts (promiseAll (pass e opts w ?n))))"
    by (rule grows_run) (simp_all add: deferred_def)
  then have d: "grows deferred (wld (pass e opts w ?n)) (wld (main e args w))"
    unfolding m by simp
  show ?thesis using a b c m d by simp
qed

theorem pass_then_deferred_witness:
  "parseArgs [''-f'', ''-y'', ''a'', ''e'', ''b'']
      = Inr \<lparr>force = True, yes = True, brutal = False, help' = False, version' = False,
             directories = [''a'', ''e'', ''b'']\<rparr>
   \<and> trace (wld (pass decliningEnv
                   \<lparr>force = True, yes = True, brutal = False, help' = False, version' = False,
                     directories = [''a'', ''e'', ''b'']\<rparr> twoDirs 3))
       = [Stat ''a'', Readdir ''a'', Stat ''e'', Readdir ''e'', Remove ''e'', Out (MDeleted ''e''),
          Stat ''b'', Readdir ''b'']
   \<and> trace (wld (main decliningEnv [''-f'', ''-y'', ''a'', ''e'', ''b''] twoDirs))
       = [Stat ''a'', Readdir ''a'', Stat ''e'', Readdir ''e'', Remove ''e'', Out (MDeleted ''e''),
          Stat ''b'', Readdir ''b'',
          Out (MDeleting ''a''), Remove ''a'', Out (MDeleted ''a''),
          Out (MDeleting ''b''), Remove ''b'', Out (MDeleted ''b''), Out MAllDeleted]"
proof -
  let ?o = "\<lparr>force = True, yes = True, brutal = False, help' = False, version' = False,
             directories = [''a'', ''e'', ''b'']\<rparr>"
  have p: "parseArgs [''-f'', ''-y'', ''a'', ''e'', ''b''] = Inr ?o"
    by code_simp
  have t1: "trace (wld (pass decliningEnv ?o twoDirs 3))
       = [Stat ''a'', Readdir ''a'', Stat ''e'', Readdir ''e'', Remove ''e'', Out (MDeleted ''e''),
          Stat ''b'', Readdir ''b'']"
    by code_simp
  have t: "trace (wld (main decliningEnv [''-f'', ''-y'', ''a'', ''e'', ''b''] twoDirs))
       = [Stat ''a'', Readdir ''a'', Stat ''e'', Readdir ''e'', Remove ''e'', Out (MDeleted ''e''),
          Stat ''b'', Readdir ''b'',
          Out (MDeleting ''a''), Remove ''a'', Out (MDeleted ''a''),
          Out (MDeleting ''b''), Remove ''b'', Out (MDeleted ''b''), Out MAllDeleted]"
    by code_simp
  show ?thesis
    using pass_then_deferred [OF p, of twoDirs decliningEnv] p t t1 by simp
qed

text \<open>
  Claim C2 as stated fails: with \<open>-f -y a b\<close> on two non-empty directories, \<open>a\<close> is
  deleted after the inspection of \<open>b\<close> has begun.
\<close>

theorem strictly_sequential_counterexample:
  "\<not> strictlySequential (trace (wld (main decliningEnv [''-f'', ''-y'', ''a'', ''b''] twoDirs))) ''a'' ''b''"
  by code_simp

lemma step_exited:
  "exited s = None \<Longrightarrow> j \<noteq> OnAll \<Longrightarrow> (\<And>m. j \<noteq> OnError m) \<Longrightarrow> exited (step e opts j s) = None"
  by (cases "(e, opts, j, s)" rule: step.cases)
     (auto simp: enqueue_def settle_def confirmedJob_def scannedJob_def killedAllJob_def
        killFailedJob_def deleteJob_def settleJob_def Let_def
        split: prod.splits sum.splits pstate.splits)

lemma ending_onAll:
  assumes c: "consistent e s" and qs: "queue s = OnAll # q"
  shows "ending (onAllJob (s\<lparr>queue := q\<rparr>))"
proof -
  from c have rc: "recorded s" by (simp add: consistent_def)
  have "Summary \<in> fates s" using qs by (simp add: fates_def)
  then have af: "allst s = AllFulfilled" using rc by (simp add: recorded_def)
  then have all: "\<forall>i < total s. vals s i \<noteq> None" using rc by (simp add: recorded_def)
  have vp: "\<And>i b. vals s i = Some b \<Longrightarrow> promises s i = Fulfilled b"
    using rc by (simp add: recorded_def)
  have ful: "\<forall>i < total s. \<exists>b. promises s i = Fulfilled b"
    using all vp by fastforce
  have "\<And>i. i < total s \<Longrightarrow> (vals s i = Some True) = (promises s i = Fulfilled True)"
    using all vp by fastforce
  then have "filter (\<lambda>i. vals s i = Some True) [0..<total s]
           = filter (\<lambda>i. promises s i = Fulfilled True) [0..<total s]"
    by (intro filter_cong) auto
  then have sc: "successCount (s\<lparr>queue := q\<rparr>) = successes s"
    by (simp add: successCount_def successes_def)
  show ?thesis
    using ful by (simp add: ending_def onAllJob_def sc successes_def emit_def)
qed

lemma ending_onError:
  assumes c: "consistent e s" and qs: "queue s = OnError m # q"
  shows "ending (onErrorJob m (s\<lparr>queue := q\<rparr>))"
proof -
  from c have rc: "recorded s" by (simp add: consistent_def)
  have "Failing m \<in> fates s" using qs by (simp add: fates_def)
  then have "allst s = AllRejected m" using rc by (simp add: recorded_def)
  then have "\<exists>i < total s. promises s i = Rejected m" using rc by (simp add: recorded_def)
  then show ?thesis by (auto simp: ending_def onErrorJob_def emit_def)
qed

lemma ending_step:
  assumes c: "consistent e s" and x: "exited s = None" and qs: "queue s = j # q"
  shows "ending (step e opts j (s\<lparr>queue := q\<rparr>))"
proof (cases "j = OnAll \<or> (\<exists>m. j = OnError m)")
  case True
  then show ?thesis using ending_onAll [OF c] ending_onError [OF c] qs by auto
next
  case False
  then have "exited (step e opts j (s\<lparr>queue := q\<rparr>)) = None"
    using x by (intro step_exited) auto
  then show ?thesis by (simp add: ending_def)
qed

lemma run_ending:
  assumes "consistent e s" "exited s = None"
  shows "ending (run e opts s)"
proof -
  have "consistent e (run e opts s) \<and> ending (run e opts s)"
  proof (rule run_invariant [where I = "\<lambda>t. consistent e t \<and> ending t"])
    show "consistent e s \<and> ending s" using assms by (simp add: ending_def)
  next
    fix t :: sched and j q
    assume i: "consistent e t \<and> ending t" and x: "exited t = None" and qs: "queue t = j # q"
    from i have c: "consistent e t" by simp
    show "consistent e (step e opts j (t\<lparr>queue := q\<rparr>)) \<and> ending (step e opts j (t\<lparr>queue := q\<rparr>))"
      using consistent_step [OF c x qs] ending_step [OF c x qs] by simp
  next
    fix t :: sched
    assume i: "consistent e t \<and> ending t" and x: "exited t = None" and q: "queue t = []"
      and w: "waiting t \<noteq> []"
    from i have c: "consistent e t" by simp
    have "exited (deliver e (waiting t) (t\<lparr>waiting := []\<rparr>)) = None"
      using x by (simp add: deliver_exited)
    then show "consistent e (deliver e (waiting t) (t\<lparr>waiting := []\<rparr>))
               \<and> ending (deliver e (waiting t) (t\<lparr>waiting := []\<rparr>))"
      using consistent_deliver [OF c x q] by (simp add: ending_def)
  qed
  then show ?thesis by simp
qed


lemma step_no_confirmed:
  "j' \<in> set (queue (step e opts j s)) \<Longrightarrow> kernel j' = Confirmed i d c
     \<Longrightarrow> j' \<in> set (queue s) \<or> kernel j = Confirmed i d c"
  by (cases "(e, opts, j, s)" rule: step.cases)
     (auto simp: enqueue_def settle_def confirmedJob_def scannedJob_def killedAllJob_def
        killFailedJob_def deleteJob_def settleJob_def onAllJob_def onErrorJob_def Let_def
        split: prod.splits sum.splits pstate.splits if_splits)

lemma step_tick:
  "step e opts (Tick n j0) s = enqueue [case n of 0 \<Rightarrow> j0 | Suc m \<Rightarrow> Tick m j0] s"
  by (cases n) simp_all

lemma kernel_cases:
  "kernel j = Confirmed k d c \<Longrightarrow> j = Confirmed k d c \<or> (\<exists>n j0. j = Tick n j0 \<and> kernel j0 = Confirmed k d c)"
  by (cases j) simp_all

lemma step_promise_other:
  "fateOf j \<noteq> Carries k \<Longrightarrow> promises (step e opts j s) k = promises s k"
  by (cases "(e, opts, j, s)" rule: step.cases)
     (auto simp: enqueue_def settle_def confirmedJob_def scannedJob_def killedAllJob_def
        killFailedJob_def deleteJob_def settleJob_def onAllJob_def onErrorJob_def Let_def
        split: prod.splits sum.splits pstate.splits if_splits)

lemma step_new_fates:
  "j' \<in> set (queue (step e opts j s)) \<Longrightarrow>
     j' \<in> set (queue s) \<or> fateOf j' = fateOf j \<or> (\<exists>i. fateOf j' = Reacts i)
     \<or> fateOf j' = Summary \<or> (\<exists>m. fateOf j' = Failing m)"
  by (cases "(e, opts, j, s)" rule: step.cases)
     (auto simp: enqueue_def settle_def confirmedJob_def scannedJob_def killedAllJob_def
        killFailedJob_def deleteJob_def settleJob_def onAllJob_def onErrorJob_def Let_def
        split: prod.splits sum.splits pstate.splits if_splits)

lemma trace_step: "ev \<in> set (trace (wld s)) \<Longrightarrow> ev \<in> set (trace (wld (step e opts j s)))"
  using grows_step [of "\<lambda>ev. True" s e opts j] by (auto simp: grows_def)

lemma declined_step:
  assumes d: "declined k s" and qs: "queue s = j # q"
  shows "declined k (step e opts j (s\<lparr>queue := q\<rparr>))"
proof -
  let ?s = "s\<lparr>queue := q\<rparr>"
  let ?t = "step e opts j ?s"
  have p1: "promises s k \<noteq> Fulfilled True" using d by (simp add: declined_def)
  have p2: "\<And>j'. promises s k = Pending \<Longrightarrow> j' \<in> set (j # q) \<Longrightarrow> fateOf j' = Carries k
              \<Longrightarrow> \<exists>d. kernel j' = Confirmed k d False"
    using d unfolding declined_def qs by blast
  have p3: "promises s k = Fulfilled False
              \<or> (\<exists>j' \<in> set (j # q). \<exists>d. kernel j' = Confirmed k d False)
              \<Longrightarrow> Out MCancelled \<in> set (trace (wld s))"
    using d unfolding declined_def qs by blast
  have tr: "Out MCancelled \<in> set (trace (wld s)) \<Longrightarrow> Out MCancelled \<in> set (trace (wld ?t))"
    using trace_step [of "Out MCancelled" ?s e opts j] by simp
  have old: "\<exists>j'' \<in> set (j # q). \<exists>d. kernel j'' = Confirmed k d False"
    if a: "j' \<in> set (queue ?t)" and kk: "kernel j' = Confirmed k d False" for j' d
  proof -
    have "j' \<in> set (queue ?s) \<or> kernel j = Confirmed k d False"
      using a kk by (rule step_no_confirmed)
    then show ?thesis using kk by auto
  qed
  have q3: "Out MCancelled \<in> set (trace (wld ?t))"
    if "\<exists>j' \<in> set (queue ?t). \<exists>d. kernel j' = Confirmed k d False"
  proof -
    from that obtain j' d where "j' \<in> set (queue ?t)" "kernel j' = Confirmed k d False" by blast
    then have "\<exists>j'' \<in> set (j # q). \<exists>d. kernel j'' = Confirmed k d False" by (rule old)
    then have "Out MCancelled \<in> set (trace (wld s))" using p3 by simp
    then show ?thesis by (rule tr)
  qed
  show ?thesis
  proof (cases "promises s k = Pending")
    case np: False
    have pk: "promises ?t k = promises s k"
      using step_promises [of ?s k e opts j] np by simp
    have f: "Out MCancelled \<in> set (trace (wld ?t))" if "promises ?t k = Fulfilled False"
      using that pk p3 tr by simp
    show ?thesis
      unfolding declined_def
    proof (intro conjI impI)
      show "promises ?t k \<noteq> Fulfilled True" using pk p1 by simp
      show "\<forall>j \<in> set (queue ?t). fateOf j = Carries k \<longrightarrow> (\<exists>d. kernel j = Confirmed k d False)"
        if "promises ?t k = Pending"
        using that pk np by simp
      show "Out MCancelled \<in> set (trace (wld ?t))"
        if "promises ?t k = Fulfilled False
            \<or> (\<exists>j \<in> set (queue ?t). \<exists>d. kernel j = Confirmed k d False)"
        using that f q3 by blast
    qed
  next
    case pend: True
    show ?thesis
    proof (cases "fateOf j = Carries k")
      case nf: False
      have pk: "promises ?t k = Pending"
        using step_promise_other [OF nf, of e opts ?s] pend by simp
      have q2: "\<exists>d. kernel j' = Confirmed k d False"
        if a: "j' \<in> set (queue ?t)" and f: "fateOf j' = Carries k" for j'
      proof -
        have "j' \<in> set q" using step_new_fates [OF a] f nf by auto
        then show ?thesis using p2 [OF pend _ f] by simp
      qed
      show ?thesis
        unfolding declined_def
      proof (intro conjI impI)
        show "promises ?t k \<noteq> Fulfilled True" using pk by simp
        show "\<forall>j \<in> set (queue ?t). fateOf j = Carries k \<longrightarrow> (\<exists>d. kernel j = Confirmed k d False)"
          using q2 by blast
        show "Out MCancelled \<in> set (trace (wld ?t))"
          if "promises ?t k = Fulfilled False
              \<or> (\<exists>j \<in> set (queue ?t). \<exists>d. kernel j = Confirmed k d False)"
          using that pk q3 by auto
      qed
    next
      case True
      then obtain dd where kj: "kernel j = Confirmed k dd False" using p2 [OF pend, of j] by auto
      have c: "Out MCancelled \<in> set (trace (wld s))" using p3 kj by auto
      from kernel_cases [OF kj] show ?thesis
      proof
        assume j: "j = Confirmed k dd False"
        have "promises ?t k = Fulfilled False" "wld ?t = wld s"
          using pend j by (simp_all add: confirmedJob_def settle_def enqueue_def)
        then show ?thesis using c by (simp add: declined_def)
      next
        assume "\<exists>n j0. j = Tick n j0 \<and> kernel j0 = Confirmed k dd False"
        then obtain n j0 where j: "j = Tick n j0" and k0: "kernel j0 = Confirmed k dd False"
          by blast
        let ?new = "case n of 0 \<Rightarrow> j0 | Suc m \<Rightarrow> Tick m j0"
        have st: "?t = enqueue [?new] ?s" unfolding j by (rule step_tick)
        have kn: "kernel ?new = Confirmed k dd False" using k0 by (cases n) simp_all
        have pk: "promises ?t k = Pending" "wld ?t = wld s" "queue ?t = q @ [?new]"
          unfolding st using pend by (simp_all add: enqueue_def)
        show ?thesis
          unfolding declined_def
        proof (intro conjI impI)
          show "promises ?t k \<noteq> Fulfilled True" using pk by simp
          show "\<forall>j \<in> set (queue ?t). fateOf j = Carries k \<longrightarrow> (\<exists>d. kernel j = Confirmed k d False)"
            using p2 [OF pend] kn unfolding pk(3) by auto
          show "Out MCancelled \<in> set (trace (wld ?t))" using c pk(2) by simp
        qed
      qed
    qed
  qed
qed

lemma declined_deliver:
  assumes "\<not> affirmative (answer e k)"
  shows "declined k s \<Longrightarrow> declined k (deliver e ts s)"
proof (induction ts arbitrary: s)
  case Nil
  then show ?case by simp
next
  case (Cons t ts)
  show ?case
  proof (cases "endOfInput e (fst t)")
    case True
    then show ?thesis using Cons.IH [OF Cons.prems] by simp
  next
    case False
    let ?c = "affirmative (answer e (fst t))"
    let ?w1 = "if \<not> ?c then emit (Out MCancelled) (wld s) else wld s"
    let ?s1 = "enqueue [Confirmed (fst t) (snd t) ?c] (s\<lparr>wld := ?w1\<rparr>)"
    have a: "answered (answer e (fst t)) (wld s) = (?c, ?w1)"
      by (simp add: answered_def Let_def)
    have d1: "promises ?s1 k = promises s k" "queue ?s1 = queue s @ [Confirmed (fst t) (snd t) ?c]"
      "set (trace (wld s)) \<subseteq> set (trace (wld ?s1))"
      "\<not> ?c \<Longrightarrow> Out MCancelled \<in> set (trace (wld ?s1))"
      by (auto simp: enqueue_def emit_def)
    have d2: "fst t = k \<Longrightarrow> \<not> ?c" using assms by simp
    have "declined k ?s1"
      unfolding declined_def d1(1,2)
    proof (intro conjI impI)
      show "promises s k \<noteq> Fulfilled True" using Cons.prems by (simp add: declined_def)
      show "\<forall>j \<in> set (queue s @ [Confirmed (fst t) (snd t) ?c]).
              fateOf j = Carries k \<longrightarrow> (\<exists>d. kernel j = Confirmed k d False)"
        if "promises s k = Pending"
        using that Cons.prems d2 by (auto simp: declined_def)
      show "Out MCancelled \<in> set (trace (wld ?s1))"
        if h: "promises s k = Fulfilled False
            \<or> (\<exists>j \<in> set (queue s @ [Confirmed (fst t) (snd t) ?c]).
                  \<exists>d. kernel j = Confirmed k d False)"
      proof (cases "fst t = k \<and> \<not> ?c")
        case True
        then have "\<not> ?c" by blast
        then show ?thesis by (rule d1(4))
      next
        case False
        then have "promises s k = Fulfilled False
            \<or> (\<exists>j \<in> set (queue s). \<exists>d. kernel j = Confirmed k d False)"
          using h by auto
        then have "Out MCancelled \<in> set (trace (wld s))"
          using Cons.prems unfolding declined_def by blast
        then show ?thesis using d1(3) by blast
      qed
    qed
    then have "declined k (deliver e ts ?s1)" by (rule Cons.IH)
    then show ?thesis using False a by simp
  qed
qed

lemma run_declined:
  assumes "\<not> affirmative (answer e k)" "declined k s"
  shows "declined k (run e opts s)"
proof (rule run_invariant [where I = "declined k"])
  show "declined k s" by (rule assms(2))
next
  fix t :: sched and j q
  assume "declined k t" "queue t = j # q"
  then show "declined k (step e opts j (t\<lparr>queue := q\<rparr>))" by (rule declined_step)
next
  fix t :: sched
  assume d: "declined k t" and q: "queue t = []"
  have "declined k (t\<lparr>waiting := []\<rparr>)" using d by (simp add: declined_def)
  then show "declined k (deliver e (waiting t) (t\<lparr>waiting := []\<rparr>))"
    by (rule declined_deliver [OF assms(1)])
qed

lemma start_no_carry:
  "Carries k \<notin> fates s \<Longrightarrow> i \<noteq> k \<or> fst (rmdirWithConfirmation e opts i d (wld s)) = Waits
     \<Longrightarrow> Carries k \<notin> fates (start e opts i d s)"
  by (auto simp: start_def fates_def enqueue_def split: prod.splits executed.splits)

lemma startAll_no_carry:
  "Carries k \<notin> fates s \<Longrightarrow> k < i \<Longrightarrow> Carries k \<notin> fates (startAll e opts i ds s)"
proof (induction ds arbitrary: i s)
  case Nil
  then show ?case by simp
next
  case (Cons d ds)
  have "Carries k \<notin> fates (start e opts i d s)"
    using Cons.prems by (intro start_no_carry) auto
  then show ?case using Cons.IH [of "start e opts i d s" "Suc i"] Cons.prems by simp
qed

lemma launching_pass:
  "k \<le> length (directories opts) \<Longrightarrow> launching k (pass e opts w k)"
proof -
  assume k: "k \<le> length (directories opts)"
  have "launching (0 + length (take k (directories opts)))
          (startAll e opts 0 (take k (directories opts)) (initial (length (directories opts)) w))"
    by (rule launching_startAll [OF launching_initial])
  moreover have "length (take k (directories opts)) = k" using k by simp
  ultimately show ?thesis by (simp only: pass_def add_0)
qed

lemma declined_launch:
  assumes k: "k < length (directories opts)"
    and wt: "fst (rmdirWithConfirmation e opts k (directories opts ! k) (wld (pass e opts w k))) = Waits"
  shows "declined k (promiseAll (pass e opts w (length (directories opts))))"
proof -
  let ?n = "length (directories opts)"
  have l: "launching k (pass e opts w k)" using k by (intro launching_pass) simp
  have c0: "Carries k \<notin> fates (pass e opts w k)"
    using l by (auto simp: launching_def)
  have c1: "Carries k \<notin> fates (pass e opts w (Suc k))"
    unfolding pass_Suc [OF k] using c0 wt by (intro start_no_carry) auto
  have c: "Carries k \<notin> fates (pass e opts w ?n)"
    using pass_split [of "Suc k" ?n e opts w] k startAll_no_carry [OF c1, of "Suc k" e opts]
    by simp
  have "promises (pass e opts w k) k = Pending" using l by (simp add: launching_def)
  then have p: "promises (pass e opts w ?n) k = Pending"
    using pass_promise [OF k, of e w] wt by (simp add: start_promises)
  have pp: "promises (promiseAll (pass e opts w ?n)) k = Pending"
    using p by (simp add: promiseAll_def enqueue_def)
  have nc: "fateOf j \<noteq> Carries k" if "j \<in> set (queue (promiseAll (pass e opts w ?n)))" for j
  proof -
    have "j \<in> set (queue (pass e opts w ?n)) \<or> (\<exists>i. j = Settle i)"
      using that by (auto simp: promiseAll_def enqueue_def)
    then show ?thesis
    proof
      assume "j \<in> set (queue (pass e opts w ?n))"
      then have "fateOf j \<in> fates (pass e opts w ?n)" by (simp add: fates_def)
      then show ?thesis using c by auto
    next
      assume "\<exists>i. j = Settle i"
      then show ?thesis by auto
    qed
  qed
  have nk: "kernel j \<noteq> Confirmed k d False"
    if "j \<in> set (queue (promiseAll (pass e opts w ?n)))" for j d
  proof
    assume "kernel j = Confirmed k d False"
    then have "fateOf j = Carries k" by (induction j) simp_all
    then show False using nc [OF that] by simp
  qed
  show ?thesis
    unfolding declined_def pp using nc nk by auto
qed

lemma processAll_ending:
  assumes "directories opts \<noteq> []"
  shows "ending (processAll e opts w) \<and> total (processAll e opts w) = length (directories opts)"
proof -
  let ?n = "length (directories opts)"
  let ?s = "promiseAll (pass e opts w ?n)"
  have c: "consistent e ?s"
    using consistent_launch [OF assms, of e opts w] by (simp add: pass_def)
  have "launching ?n (pass e opts w ?n)" by (rule launching_pass) simp
  then have x: "exited ?s = None" by (simp add: launching_def promiseAll_def enqueue_def)
  have t: "total ?s = ?n"
    by (simp add: promiseAll_def enqueue_def pass_def startAll_total initial_def)
  show ?thesis
    unfolding processAll_pass using run_ending [OF c x, of opts] t by (simp add: run_total)
qed

lemma processAll_declined:
  assumes k: "k < length (directories opts)"
    and wt: "fst (rmdirWithConfirmation e opts k (directories opts ! k) (wld (pass e opts w k))) = Waits"
    and na: "\<not> affirmative (answer e k)"
  shows "declined k (processAll e opts w)"
  unfolding processAll_pass
  by (rule run_declined [OF na declined_launch [OF k wt]])

text \<open>
  Claim C4, as amended. An unknown option exits with status 1 after the usage text; a
  help or version request exits with status 0 whatever targets are given; no target
  exits with status 1 after the usage text. Otherwise \<open>process.exit\<close> is called with 0 or
  1 or not at all: with 0 exactly when the promise of every target is fulfilled with
  \<open>true\<close>; not at all exactly when some promise is still pending at the end and none is
  rejected, which only happens to targets whose question met the end of input, and the
  process then ends with status 0. So the status is 0 exactly when every target
  succeeded or the input ended before a question was answered while no target had
  failed, and when every question receives a line the status is 0 exactly when every
  target succeeded, and 1 otherwise. A target whose question receives a line that is not
  affirmative is never counted as deleted: its promise is fulfilled with \<open>false\<close> after the
  cancellation line, unless the run has exited before, the call of \<open>process.exit\<close> is not
  with 0, and it is with 1 when every question receives a line.
\<close>

theorem exit_status_of_main:
  "(\<forall>tok. parseArgs args = Inl tok \<longrightarrow>
       exited (main e args w) = Some 1
       \<and> trace (wld (main e args w)) = trace w @ [Err (MUnknownOption tok), Out MUsage])
   \<and> (\<forall>opts. parseArgs args = Inr opts \<longrightarrow>
         (help' opts \<longrightarrow>
            exited (main e args w) = Some 0 \<and> trace (wld (main e args w)) = trace w @ [Out MUsage])
         \<and> (\<not> help' opts \<and> version' opts \<longrightarrow>
               exited (main e args w) = Some 0
               \<and> trace (wld (main e args w)) = trace w @ [Out MVersion])
         \<and> (\<not> help' opts \<and> \<not> version' opts \<and> directories opts = [] \<longrightarrow>
               exited (main e args w) = Some 1
               \<and> trace (wld (main e args w)) = trace w @ [Err MNoDirectory, Out MUsage])
         \<and> (\<not> help' opts \<and> \<not> version' opts \<and> directories opts \<noteq> [] \<longrightarrow>
               (exited (main e args w) = None \<or> exited (main e args w) = Some 0
                \<or> exited (main e args w) = Some 1)
               \<and> (exited (main e args w) = Some 0
                    \<longleftrightarrow> (\<forall>i < length (directories opts). promises (main e args w) i = Fulfilled True))
               \<and> (exited (main e args w) = None
                    \<longleftrightarrow> (\<exists>i < length (directories opts). promises (main e args w) i = Pending)
                        \<and> (\<forall>i < length (directories opts). \<forall>msg.
                              promises (main e args w) i \<noteq> Rejected msg))
               \<and> (exited (main e args w) = None
                    \<longrightarrow> (\<forall>i < length (directories opts).
                           promises (main e args w) i = Pending \<longrightarrow> endOfInput e i))
               \<and> ((\<forall>i < length (directories opts). \<not> endOfInput e i)
                    \<longrightarrow> exited (main e args w) \<noteq> None)
               \<and> (exitStatus (main e args w) = 0
                    \<longleftrightarrow> (\<forall>i < length (directories opts). promises (main e args w) i = Fulfilled True)
                        \<or> exited (main e args w) = None)
               \<and> (\<forall>k < length (directories opts).
                     fst (rmdirWithConfirmation e opts k (directories opts ! k)
                            (wld (pass e opts w k))) = Waits
                     \<and> \<not> affirmative (answer e k)
                     \<longrightarrow> promises (main e args w) k \<noteq> Fulfilled True
                         \<and> exited (main e args w) \<noteq> Some 0
                         \<and> (promises (main e args w) k = Fulfilled False
                              \<longrightarrow> Out MCancelled \<in> set (trace (wld (main e args w))))
                         \<and> ((\<forall>i < length (directories opts). \<not> endOfInput e i)
                              \<longrightarrow> exited (main e args w) = Some 1))))"
proof (intro conjI allI impI)
  fix tok assume "parseArgs args = Inl tok"
  then show "exited (main e args w) = Some 1"
    and "trace (wld (main e args w)) = trace w @ [Err (MUnknownOption tok), Out MUsage]"
    by (simp_all add: main_def halted_def initial_def emits_def)
next
  fix opts assume p: "parseArgs args = Inr opts"
  {
    assume "help' opts"
    then show "exited (main e args w) = Some 0"
      and "trace (wld (main e args w)) = trace w @ [Out MUsage]"
      using p by (simp_all add: main_def halted_def initial_def emit_def)
  }
  {
    assume "\<not> help' opts \<and> version' opts"
    then show "exited (main e args w) = Some 0"
      and "trace (wld (main e args w)) = trace w @ [Out MVersion]"
      using p by (simp_all add: main_def halted_def initial_def emit_def)
  }
  {
    assume "\<not> help' opts \<and> \<not> version' opts \<and> directories opts = []"
    then show "exited (main e args w) = Some 1"
      and "trace (wld (main e args w)) = trace w @ [Err MNoDirectory, Out MUsage]"
      using p by (simp_all add: main_def halted_def initial_def emits_def)
  }
  {
    assume h: "\<not> help' opts \<and> \<not> version' opts \<and> directories opts \<noteq> []"
    let ?n = "length (directories opts)"
    let ?m = "main e args w"
    have m: "?m = processAll e opts w"
      using main_processes [OF p] h by simp
    have ne: "directories opts \<noteq> []" using h by simp
    note st = processAll_exit_status [OF ne, of e w, folded m]
    note idle = processAll_idle_end [OF ne, of e w, folded m]
    note en = processAll_ending [OF ne, of e w, folded m]
    show three: "exited ?m = None \<or> exited ?m = Some 0 \<or> exited ?m = Some 1"
      using st by (rule conjunct1)
    show zero: "exited ?m = Some 0 \<longleftrightarrow> (\<forall>i < ?n. promises ?m i = Fulfilled True)"
      using st by (rule conjunct2)
    show none: "exited ?m = None
            \<longleftrightarrow> (\<exists>i < ?n. promises ?m i = Pending) \<and> (\<forall>i < ?n. \<forall>msg. promises ?m i \<noteq> Rejected msg)"
    proof
      assume "exited ?m = None"
      then show "(\<exists>i < ?n. promises ?m i = Pending) \<and> (\<forall>i < ?n. \<forall>msg. promises ?m i \<noteq> Rejected msg)"
        using idle by blast
    next
      assume a: "(\<exists>i < ?n. promises ?m i = Pending) \<and> (\<forall>i < ?n. \<forall>msg. promises ?m i \<noteq> Rejected msg)"
      show "exited ?m = None"
      proof (rule ccontr)
        assume "exited ?m \<noteq> None"
        then obtain c where c: "exited ?m = Some c" by auto
        have "(\<exists>msg. \<exists>i < ?n. promises ?m i = Rejected msg)
              \<or> (\<forall>i < ?n. \<exists>b. promises ?m i = Fulfilled b)"
          using en c unfolding ending_def by auto
        then show False using a by force
      qed
    qed
    show "endOfInput e i" if "exited ?m = None" "i < ?n" "promises ?m i = Pending" for i
      using idle [OF that(1)] that(2,3) by blast
    show live: "exited ?m \<noteq> None" if "\<forall>i < ?n. \<not> endOfInput e i"
      using idle that by blast
    show "exitStatus ?m = 0 \<longleftrightarrow> (\<forall>i < ?n. promises ?m i = Fulfilled True) \<or> exited ?m = None"
      using three zero by (auto simp: exitStatus_def)
    {
      fix k
      assume k: "k < ?n"
        and d: "fst (rmdirWithConfirmation e opts k (directories opts ! k) (wld (pass e opts w k))) = Waits
                \<and> \<not> affirmative (answer e k)"
      have dc: "declined k ?m"
        unfolding m using k d by (intro processAll_declined) simp_all
      show nt: "promises ?m k \<noteq> Fulfilled True" using dc by (simp add: declined_def)
      show nz: "exited ?m \<noteq> Some 0" using zero nt k by blast
      show "Out MCancelled \<in> set (trace (wld ?m))" if "promises ?m k = Fulfilled False"
        using dc that by (simp add: declined_def)
      show "exited ?m = Some 1" if "\<forall>i < ?n. \<not> endOfInput e i"
        using three nz live [OF that] by blast
    }
  }
qed

theorem exit_status_of_main_witness:
  "parseArgs [''-f'', ''a'']
      = Inr \<lparr>force = True, yes = False, brutal = False, help' = False, version' = False,
             directories = [''a'']\<rparr>
   \<and> promises (main decliningEnv [''-f'', ''a''] twoDirs) 0 = Fulfilled False
   \<and> Out MCancelled \<in> set (trace (wld (main decliningEnv [''-f'', ''a''] twoDirs)))
   \<and> exited (main decliningEnv [''-f'', ''a''] twoDirs) = Some 1
   \<and> parseArgs [''e''] = Inr (defaultOptions\<lparr>directories := [''e'']\<rparr>)
   \<and> promises (main decliningEnv [''e''] twoDirs) 0 = Fulfilled True
   \<and> exited (main decliningEnv [''e''] twoDirs) = Some 0
   \<and> parseArgs [''a'', ''-x''] = Inl ''-x''
   \<and> exited (main decliningEnv [''a'', ''-x''] twoDirs) = Some 1
   \<and> \<not> affirmative ''no''"
proof -
  let ?o = "\<lparr>force = True, yes = False, brutal = False, help' = False, version' = False,
             directories = [''a'']\<rparr>"
  have p1: "parseArgs [''-f'', ''a''] = Inr ?o"
    by code_simp
  have c1: "promises (main decliningEnv [''-f'', ''a''] twoDirs) 0 = Fulfilled False"
    by code_simp
  have w1: "fst (rmdirWithConfirmation decliningEnv ?o 0 ''a'' (wld (pass decliningEnv ?o twoDirs 0))) = Waits"
    by code_simp
  have p2: "parseArgs [''e''] = Inr (defaultOptions\<lparr>directories := [''e'']\<rparr>)"
    by code_simp
  have c2: "promises (main decliningEnv [''e''] twoDirs) 0 = Fulfilled True"
    by code_simp
  have p3: "parseArgs [''a'', ''-x''] = Inl ''-x''"
    by code_simp
  have n: "\<not> affirmative ''no''" by code_simp
  have a: "answer decliningEnv 0 = ''no'' \<and> (\<forall>i. \<not> endOfInput decliningEnv i)"
    by (simp add: decliningEnv_def)
  show ?thesis
    using exit_status_of_main [of "[''-f'', ''a'']" decliningEnv twoDirs]
      exit_status_of_main [of "[''e'']" decliningEnv twoDirs]
      exit_status_of_main [of "[''a'', ''-x'']" decliningEnv twoDirs]
      p1 c1 w1 p2 c2 p3 n a
    by (simp add: defaultOptions_def)
qed

text \<open>
  Claim C4 as stated fails: with \<open>-f a\<close> on a non-empty directory and a standard input
  that ends before the question is answered, \<open>process.exit\<close> is never called and the
  process ends with status 0, while the target has not succeeded: its promise is still
  pending and the directory is as it was.
\<close>

theorem exit_status_counterexample:
  "parseArgs [''-f'', ''a'']
      = Inr \<lparr>force = True, yes = False, brutal = False, help' = False, version' = False,
             directories = [''a'']\<rparr>
   \<and> exited (main silentEnv [''-f'', ''a''] twoDirs) = None
   \<and> exitStatus (main silentEnv [''-f'', ''a''] twoDirs) = 0
   \<and> promises (main silentEnv [''-f'', ''a''] twoDirs) 0 = Pending
   \<and> trace (wld (main silentEnv [''-f'', ''a''] twoDirs))
       = [Stat ''a'', Readdir ''a'', Out (MAboutToDelete ''a''), Out (MContains 1 3), Out MBlank,
          Question 0 False]
   \<and> fs (wld (main silentEnv [''-f'', ''a''] twoDirs)) ''a'' = Dir [(''f'', File 3)]"
  by code_simp

text \<open>
  After a declined confirmation the first callback returns without a value, so the second
  callback still runs: the directory is deleted, while the target counts as not deleted.
\<close>

lemma declined_target_still_deleted:
  "trace (wld (main decliningEnv [''-f'', ''a''] twoDirs))
     = [Stat ''a'', Readdir ''a'', Out (MAboutToDelete ''a''), Out (MContains 1 3), Out MBlank,
        Question 0 False, Out MCancelled, Out (MDeleting ''a''), Remove ''a'',
        Out (MDeleted ''a''), Out (MSummary 0 1)]
   \<and> fs (wld (main decliningEnv [''-f'', ''a''] twoDirs)) ''a'' = NoStat ENOENT
   \<and> exited (main decliningEnv [''-f'', ''a''] twoDirs) = Some 1"
  by code_simp

lemma rwc_missing:
  assumes "fs w d = NoStat ENOENT"
  shows "rmdirWithConfirmation e opts i d w =
     (Rejects ''Directory check failed'', w\<lparr>trace := trace w @ [Stat d, Err (MNotExist d)]\<rparr>)"
  using assms by (simp add: rmdirWithConfirmation_def checkDirectory_def emit_def Let_def)

lemma start_plain:
  assumes "fs (wld s) d = NoStat ENOENT \<or> fs (wld s) d = Dir []" "\<forall>c. rmdirError e c d = None"
  shows "promises (start e opts k d s) k = outcome (fs (wld s) d)
         \<and> (if fs (wld s) d = Dir []
             then Remove d \<in> set (trace (wld (start e opts k d s)))
                  \<and> Out (MDeleted d) \<in> set (trace (wld (start e opts k d s)))
             else Err (MNotExist d) \<in> set (trace (wld (start e opts k d s))))"
proof (cases "fs (wld s) d = Dir []")
  case True
  then show ?thesis using assms(2)
    by (simp add: start_def rwc_empty outcome_def)
next
  case False
  then have m: "fs (wld s) d = NoStat ENOENT" using assms(1) by simp
  then show ?thesis
    by (simp add: start_def rwc_missing outcome_def)
qed

lemma startAll_fs_other:
  assumes "\<forall>c d f. d \<noteq> x \<longrightarrow> rmdirEffect e c d f x = f x"
  shows "x \<notin> set ds \<Longrightarrow> fs (wld (startAll e opts i ds s)) x = fs (wld s) x"
proof (induction ds arbitrary: i s)
  case Nil
  show ?case by simp
next
  case (Cons d ds)
  then have "d \<noteq> x" by auto
  then have "fs (wld (start e opts i d s)) x = fs (wld s) x"
    using assms by (simp add: start_wld rwc_fs)
  then show ?case using Cons.IH Cons.prems by simp
qed

text \<open>
  Claim C1, as amended. Every target is inspected, in the order of the command line,
  whatever the outcome of the others. When \<open>process.exit\<close> is called, the run has ended
  as \<open>ending\<close> says: with the summary as the last line when every promise is fulfilled, and
  with \<open>Operation failed\<close> and the message of a rejected target, and status 1, when the
  promise of some target is rejected (missing, not a directory, not empty without a
  flag, a deletion that throws); a rejected promise always ends the run in this way,
  whatever is still to do for the other targets. The call is made whenever every
  question that is asked receives a line; otherwise the run may end without it, with a
  question that met the end of input. In particular, when every target is missing or an
  empty directory at the time it is inspected, and \<open>rmdir\<close> does not throw: the empty ones
  are removed and reported as deleted, each missing one is reported as not existing, and
  the status is 1 when some target was missing and 0 otherwise. For targets that are
  all different, with an \<open>rmdir\<close> that changes nothing at the other targets, every target
  is inspected as it was when the run started.
\<close>

theorem every_target_attempted:
  assumes "parseArgs args = Inr opts" "\<not> help' opts" "\<not> version' opts" "directories opts \<noteq> []"
  shows "filter isStat (trace (wld (main e args w)))
           = filter isStat (trace w) @ map Stat (directories opts)
         \<and> total (main e args w) = length (directories opts)
         \<and> ending (main e args w)
         \<and> ((\<forall>i < length (directories opts). \<not> endOfInput e i) \<longrightarrow> exited (main e args w) \<noteq> None)
         \<and> (exited (main e args w) = None
              \<longrightarrow> (\<exists>i < length (directories opts).
                     promises (main e args w) i = Pending \<and> endOfInput e i))
         \<and> ((\<exists>i < length (directories opts). \<exists>msg. promises (main e args w) i = Rejected msg)
              \<longrightarrow> exited (main e args w) = Some 1)
         \<and> ((\<forall>k < length (directories opts).
                 whenInspected e opts w k = NoStat ENOENT \<or> whenInspected e opts w k = Dir [])
              \<and> (\<forall>c d. rmdirError e c d = None)
            \<longrightarrow> (\<forall>k < length (directories opts).
                    promises (main e args w) k = outcome (whenInspected e opts w k)
                    \<and> (if whenInspected e opts w k = Dir []
                        then Remove (directories opts ! k) \<in> set (trace (wld (main e args w)))
                             \<and> Out (MDeleted (directories opts ! k))
                                 \<in> set (trace (wld (main e args w)))
                        else Err (MNotExist (directories opts ! k))
                               \<in> set (trace (wld (main e args w)))))
                \<and> exited (main e args w)
                     = Some (if \<exists>k < length (directories opts). whenInspected e opts w k = NoStat ENOENT
                             then 1 else 0))
         \<and> (distinct (directories opts)
              \<and> (\<forall>c d f x. x \<in> set (directories opts) \<and> d \<noteq> x \<longrightarrow> rmdirEffect e c d f x = f x)
            \<longrightarrow> (\<forall>k < length (directories opts).
                    whenInspected e opts w k = fs w (directories opts ! k)))"
proof -
  let ?ds = "directories opts"
  let ?n = "length ?ds"
  let ?f = "main e args w"
  have mp: "?f = processAll e opts w" using assms by (rule main_processes)
  have m: "?f = run e opts (promiseAll (pass e opts w ?n))" unfolding mp by (rule processAll_pass)
  have p: "pass e opts w ?n = startAll e opts 0 ?ds (initial ?n w)" by (simp add: pass_def)
  have w0: "wld (initial ?n w) = w" by (simp add: initial_def)
  note st = processAll_exit_status [OF assms(4), of e w, folded mp]
  note idle = processAll_idle_end [OF assms(4), of e w, folded mp]
  note en = processAll_ending [OF assms(4), of e w, folded mp]
  have a: "filter isStat (trace (wld ?f)) = filter isStat (trace w) @ map Stat ?ds"
    unfolding m p
    using run_stats [of e opts "promiseAll (startAll e opts 0 ?ds (initial ?n w))"]
      startAll_stats [of e opts 0 ?ds "initial ?n w"]
    by (simp add: w0)
  have b: "total ?f = ?n" and c: "ending ?f" using en by simp_all
  have d: "exited ?f \<noteq> None" if "\<forall>i < ?n. \<not> endOfInput e i"
    using idle that by blast
  have d': "\<exists>i < ?n. promises ?f i = Pending \<and> endOfInput e i" if "exited ?f = None"
    using idle [OF that] by blast
  have ee: "exited ?f = Some 1" if "\<exists>i < ?n. \<exists>msg. promises ?f i = Rejected msg"
  proof -
    from that obtain i msg where "i < ?n" "promises ?f i = Rejected msg" by blast
    then show ?thesis
      using rejected_exit [OF assms(4), of i e w msg] unfolding mp by simp
  qed
  have f: "(\<forall>k < ?n. promises ?f k = outcome (whenInspected e opts w k)
                    \<and> (if whenInspected e opts w k = Dir []
                        then Remove (?ds ! k) \<in> set (trace (wld ?f))
                             \<and> Out (MDeleted (?ds ! k)) \<in> set (trace (wld ?f))
                        else Err (MNotExist (?ds ! k)) \<in> set (trace (wld ?f))))
           \<and> exited ?f = Some (if \<exists>k < ?n. whenInspected e opts w k = NoStat ENOENT then 1 else 0)"
    if h: "(\<forall>k < ?n. whenInspected e opts w k = NoStat ENOENT \<or> whenInspected e opts w k = Dir [])
           \<and> (\<forall>c d. rmdirError e c d = None)"
  proof -
    have each: "promises ?f k = outcome (whenInspected e opts w k)
                \<and> (if whenInspected e opts w k = Dir []
                    then Remove (?ds ! k) \<in> set (trace (wld ?f))
                         \<and> Out (MDeleted (?ds ! k)) \<in> set (trace (wld ?f))
                    else Err (MNotExist (?ds ! k)) \<in> set (trace (wld ?f)))"
      if k: "k < ?n" for k
    proof -
      let ?s = "pass e opts w k"
      have i: "fs (wld ?s) (?ds ! k) = NoStat ENOENT \<or> fs (wld ?s) (?ds ! k) = Dir []"
        using h k by (simp add: whenInspected_def)
      have r: "\<forall>c. rmdirError e c (?ds ! k) = None" using h by simp
      note sp = start_plain [OF i r, of opts k, folded pass_Suc [OF k] whenInspected_def]
      have np: "outcome (whenInspected e opts w k) \<noteq> Pending" by (simp add: outcome_def)
      have pk: "promises ?f k = outcome (whenInspected e opts w k)"
        unfolding mp using processAll_settled [OF k, of e w] sp np
        by (simp add: pass_Suc [OF k])
      have tr: "\<And>ev. ev \<in> set (trace (wld (pass e opts w (Suc k)))) \<Longrightarrow> ev \<in> set (trace (wld ?f))"
        unfolding mp using k by (intro processAll_trace [of _ e opts w "Suc k"]) simp_all
      show ?thesis using pk sp tr by (simp split: if_splits)
    qed
    have all: "(\<forall>i < ?n. promises ?f i = Fulfilled True)
                 \<longleftrightarrow> \<not> (\<exists>k < ?n. whenInspected e opts w k = NoStat ENOENT)"
      using each h by (auto simp: outcome_def)
    have nn: "exited ?f \<noteq> None"
    proof
      assume "exited ?f = None"
      then obtain i where "i < ?n" "promises ?f i = Pending" using idle by blast
      then show False using each [of i] by (simp add: outcome_def split: if_splits)
    qed
    have three: "exited ?f = None \<or> exited ?f = Some 0 \<or> exited ?f = Some 1"
      using st by (rule conjunct1)
    have zero: "exited ?f = Some 0 \<longleftrightarrow> (\<forall>i < ?n. promises ?f i = Fulfilled True)"
      using st by (rule conjunct2)
    have x: "exited ?f = Some (if \<exists>k < ?n. whenInspected e opts w k = NoStat ENOENT then 1 else 0)"
    proof (cases "\<exists>k < ?n. whenInspected e opts w k = NoStat ENOENT")
      case True
      then have "exited ?f \<noteq> Some 0" using all zero by blast
      then have "exited ?f = Some 1" using three nn by blast
      then show ?thesis using True by (simp only: if_True)
    next
      case False
      then have "exited ?f = Some 0" using all zero by blast
      then show ?thesis using False by (simp only: if_False)
    qed
    show ?thesis using each x by blast
  qed
  have g: "\<forall>k < ?n. whenInspected e opts w k = fs w (?ds ! k)"
    if h: "distinct ?ds
           \<and> (\<forall>c d f x. x \<in> set ?ds \<and> d \<noteq> x \<longrightarrow> rmdirEffect e c d f x = f x)"
  proof (intro allI impI)
    fix k assume k: "k < ?n"
    have i: "\<forall>c d f. d \<noteq> ?ds ! k \<longrightarrow> rmdirEffect e c d f (?ds ! k) = f (?ds ! k)"
      using h k by simp
    have "?ds ! k \<notin> set (take k ?ds)"
      using h k by (metis distinct_take id_take_nth_drop not_distinct_conv_prefix)
    then show "whenInspected e opts w k = fs w (?ds ! k)"
      unfolding whenInspected_def pass_def
      using startAll_fs_other [OF i, of "take k ?ds" opts 0 "initial ?n w"] by (simp add: w0)
  qed
  show ?thesis using a b c d d' ee f g by blast
qed

theorem every_target_attempted_witness:
  "parseArgs [''zz'', ''e''] = Inr (defaultOptions\<lparr>directories := [''zz'', ''e'']\<rparr>)
   \<and> fs twoDirs ''zz'' = NoStat ENOENT \<and> fs twoDirs ''e'' = Dir []
   \<and> filter isStat (trace (wld (main decliningEnv [''zz'', ''e''] twoDirs))) = [Stat ''zz'', Stat ''e'']
   \<and> Remove ''e'' \<in> set (trace (wld (main decliningEnv [''zz'', ''e''] twoDirs)))
   \<and> Err (MNotExist ''zz'') \<in> set (trace (wld (main decliningEnv [''zz'', ''e''] twoDirs)))
   \<and> exited (main decliningEnv [''zz'', ''e''] twoDirs) = Some 1
   \<and> last (trace (wld (main decliningEnv [''zz'', ''e''] twoDirs)))
       = Err (MOperationFailed ''Directory check failed'')"
proof -
  let ?o = "defaultOptions\<lparr>directories := [''zz'', ''e'']\<rparr>"
  have p: "parseArgs [''zz'', ''e''] = Inr ?o"
    by code_simp
  have f: "fs twoDirs ''zz'' = NoStat ENOENT \<and> fs twoDirs ''e'' = Dir [] \<and> trace twoDirs = []"
    by (simp add: twoDirs_def)
  have r: "(\<forall>c d. rmdirError decliningEnv c d = None) \<and> (\<forall>i. \<not> endOfInput decliningEnv i)
           \<and> (\<forall>c d f x. d \<noteq> x \<longrightarrow> rmdirEffect decliningEnv c d f x = f x)"
    by (simp add: decliningEnv_def)
  have l: "last (trace (wld (main decliningEnv [''zz'', ''e''] twoDirs)))
       = Err (MOperationFailed ''Directory check failed'')"
    by code_simp
  have o: "\<not> help' ?o \<and> \<not> version' ?o \<and> directories ?o = [''zz'', ''e'']"
    by (simp add: defaultOptions_def)
  have o1: "\<not> help' ?o" and o2: "\<not> version' ?o" and o3: "directories ?o \<noteq> []"
    by (simp_all add: defaultOptions_def)
  note t = every_target_attempted [OF p o1 o2 o3, of decliningEnv twoDirs]
  have ds: "distinct (directories ?o)
            \<and> (\<forall>c d f x. x \<in> set (directories ?o) \<and> d \<noteq> x \<longrightarrow> rmdirEffect decliningEnv c d f x = f x)"
    using r o by simp
  have wi: "\<forall>k < length (directories ?o). whenInspected decliningEnv ?o twoDirs k = fs twoDirs (directories ?o ! k)"
    using t o ds by blast
  have w0: "whenInspected decliningEnv ?o twoDirs 0 = NoStat ENOENT"
    and w1: "whenInspected decliningEnv ?o twoDirs 1 = Dir []"
    using wi o f by simp_all
  have all: "\<forall>k < length (directories ?o).
               whenInspected decliningEnv ?o twoDirs k = NoStat ENOENT
               \<or> whenInspected decliningEnv ?o twoDirs k = Dir []"
    using wi o f by (auto simp: less_Suc_eq)
  have cl: "(\<forall>k < length (directories ?o).
                    promises (main decliningEnv [''zz'', ''e''] twoDirs) k
                      = outcome (whenInspected decliningEnv ?o twoDirs k)
                    \<and> (if whenInspected decliningEnv ?o twoDirs k = Dir []
                        then Remove (directories ?o ! k)
                               \<in> set (trace (wld (main decliningEnv [''zz'', ''e''] twoDirs)))
                             \<and> Out (MDeleted (directories ?o ! k))
                                 \<in> set (trace (wld (main decliningEnv [''zz'', ''e''] twoDirs)))
                        else Err (MNotExist (directories ?o ! k))
                               \<in> set (trace (wld (main decliningEnv [''zz'', ''e''] twoDirs)))))
                \<and> exited (main decliningEnv [''zz'', ''e''] twoDirs)
                     = Some (if \<exists>k < length (directories ?o).
                                  whenInspected decliningEnv ?o twoDirs k = NoStat ENOENT
                             then 1 else 0)"
    using t o all r by blast
  have x: "\<exists>k < length (directories ?o). whenInspected decliningEnv ?o twoDirs k = NoStat ENOENT"
    using w0 o by auto
  have e1: "exited (main decliningEnv [''zz'', ''e''] twoDirs) = Some 1"
    using cl x by (simp only: if_True)
  have k0: "Err (MNotExist ''zz'') \<in> set (trace (wld (main decliningEnv [''zz'', ''e''] twoDirs)))"
    using cl w0 o by (auto dest!: spec [of _ 0])
  have k1: "Remove ''e'' \<in> set (trace (wld (main decliningEnv [''zz'', ''e''] twoDirs)))"
    using cl w1 o by (auto dest!: spec [of _ 1])
  have s: "filter isStat (trace (wld (main decliningEnv [''zz'', ''e''] twoDirs))) = [Stat ''zz'', Stat ''e'']"
    using t o f by simp
  show ?thesis using p f s k0 k1 e1 l by simp
qed

text \<open>
  Claim C1 as stated fails: \<open>-f -y a\<close> deletes the non-empty directory \<open>a\<close>, but with
  \<open>-f -y zz a\<close>, where \<open>zz\<close> is missing, the run exits on the failure of \<open>zz\<close> before the
  deferred deletion of \<open>a\<close>: \<open>a\<close> is left intact, and the last line is \<open>Operation failed\<close>,
  not a summary. And with two spellings \<open>e\<close> and \<open>./e\<close> of one empty directory as targets,
  none of which is missing when the run starts, the second is inspected after the first
  has been removed: it is reported as not existing and the status is 1.
\<close>

theorem every_target_attempted_counterexample:
  "fs (wld (main decliningEnv [''-f'', ''-y'', ''a''] twoDirs)) ''a'' = NoStat ENOENT
   \<and> exited (main decliningEnv [''-f'', ''-y'', ''zz'', ''a''] twoDirs) = Some 1
   \<and> trace (wld (main decliningEnv [''-f'', ''-y'', ''zz'', ''a''] twoDirs))
       = [Stat ''zz'', Err (MNotExist ''zz''), Stat ''a'', Readdir ''a'',
          Err (MOperationFailed ''Directory check failed'')]
   \<and> fs (wld (main decliningEnv [''-f'', ''-y'', ''zz'', ''a''] twoDirs)) ''a'' = Dir [(''f'', File 3)]
   \<and> fs aliasDirs ''e'' = Dir [] \<and> fs aliasDirs ''./e'' = Dir []
   \<and> whenInspected aliasEnv (defaultOptions\<lparr>directories := [''e'', ''./e'']\<rparr>) aliasDirs 1
       = NoStat ENOENT
   \<and> trace (wld (main aliasEnv [''e'', ''./e''] aliasDirs))
       = [Stat ''e'', Readdir ''e'', Remove ''e'', Out (MDeleted ''e''),
          Stat ''./e'', Err (MNotExist ''./e''),
          Err (MOperationFailed ''Directory check failed'')]
   \<and> exited (main aliasEnv [''e'', ''./e''] aliasDirs) = Some 1"
  by code_simp

end
